theory Spec2Isabelle
  imports Main "HOL-Library.Word"
begin

unbundle bit_operations_syntax

section \<open>Errors, contexts, regions and array views\<close>

text \<open>
  Every \<open>K2_CHECK\<close> family macro aborts the process when its condition is false, and
  \<open>K2_LOG(FATAL) << msg\<close> aborts with the message.  Both are results of the model: a
  function that can abort returns \<open>error + 'a\<close>.  \<open>MissingReturn\<close> is the outcome of a
  value-returning function whose control reaches the closing brace without a
  \<open>return\<close> statement: no value is handed to the caller.
\<close>

datatype error = CheckFailed | FatalLog string | MissingReturn

datatype DeviceType = kCpu | kCuda

text \<open>
  Modelled from the spec: the execution context class is not part of
  \<open>array_ops_inl.h\<close>.  A context is the sequential host or one parallel accelerator
  (identified by its device number); two contexts are compatible exactly when they
  denote the same device.
\<close>

datatype Context = CpuContext | CudaContext nat

fun GetDeviceType :: "Context \<Rightarrow> DeviceType" where
  "GetDeviceType CpuContext = kCpu"
| "GetDeviceType (CudaContext gpu) = kCuda"

definition IsCompatible :: "Context \<Rightarrow> Context \<Rightarrow> bool" where
  "IsCompatible c d = (c = d)"

definition GetCpuContext :: Context where
  "GetCpuContext = CpuContext"

text \<open>
  Modelled from the spec: a region is one allocation tied to a context.  Its contents
  are a list of elements of the array's type, so sizes and offsets are counted in
  elements (\<open>num_bytes = length data * ElementSize\<close>, \<open>ByteOffset = offset * ElementSize\<close>).
  Every index below is a natural number: views address fewer than \<open>2^31\<close> elements, so
  the \<open>int32_t\<close> index arithmetic of the source does not wrap.
\<close>

record 'a Region =
  ctx :: Context
  data :: "'a list"

text \<open>
  Freshly allocated memory is not initialised.  The parameter \<open>junk\<close> of every
  allocating function gives the arbitrary old contents of the fresh cells.
\<close>

definition NewRegion :: "(nat \<Rightarrow> 'a) \<Rightarrow> Context \<Rightarrow> nat \<Rightarrow> 'a Region" where
  "NewRegion junk c n = \<lparr>ctx = c, data = map junk [0..<n]\<rparr>"

text \<open>
  Modelled from the spec: \<open>Array1\<close> is a view (region, offset, element count) and
  \<open>Array2\<close> is a view (region, offset, row count, column count, row stride).
\<close>

record 'a Array1 =
  Dim :: nat
  Offset1 :: nat
  Region1 :: "'a Region"

record 'a Array2 =
  Dim0 :: nat
  Dim1 :: nat
  ElemStride0 :: nat
  Offset2 :: nat
  Region2 :: "'a Region"

definition Context1 :: "'a Array1 \<Rightarrow> Context" where
  "Context1 a = ctx (Region1 a)"

definition Context2 :: "'a Array2 \<Rightarrow> Context" where
  "Context2 a = ctx (Region2 a)"

text \<open>\<open>Data1 a k\<close> and \<open>Data2 a k\<close> read \<open>a.Data()[k]\<close>.\<close>

definition Data1 :: "'a Array1 \<Rightarrow> nat \<Rightarrow> 'a" where
  "Data1 a k = data (Region1 a) ! (Offset1 a + k)"

definition Data2 :: "'a Array2 \<Rightarrow> nat \<Rightarrow> 'a" where
  "Data2 a k = data (Region2 a) ! (Offset2 a + k)"

text \<open>The element of a matrix view at row \<open>i\<close>, column \<open>j\<close>.\<close>

definition At2 :: "'a Array2 \<Rightarrow> nat \<Rightarrow> nat \<Rightarrow> 'a" where
  "At2 a i j = Data2 a (i * ElemStride0 a + j)"

text \<open>The elements of a 1-D view, in order.\<close>

definition Elems1 :: "'a Array1 \<Rightarrow> 'a list" where
  "Elems1 a = map (Data1 a) [0..<Dim a]"

text \<open>
  The data model's invariants: a view lies inside its region, and the row stride of
  a matrix view is at least its column count.
\<close>

definition Array1_ok :: "'a Array1 \<Rightarrow> bool" where
  "Array1_ok a = (Offset1 a + Dim a \<le> length (data (Region1 a)))"

definition Array2_ok :: "'a Array2 \<Rightarrow> bool" where
  "Array2_ok a =
     (Dim1 a \<le> ElemStride0 a \<and>
      (Dim0 a = 0 \<or>
       Offset2 a + (Dim0 a - 1) * ElemStride0 a + Dim1 a \<le> length (data (Region2 a))))"

text \<open>
  Modelled from the spec: the constructors \<open>Array1(context, length)\<close> and
  \<open>Array2(context, rows, cols)\<close> allocate a fresh region that the view fills exactly
  (offset 0, contiguous rows).
\<close>

definition NewArray1 :: "(nat \<Rightarrow> 'a) \<Rightarrow> Context \<Rightarrow> nat \<Rightarrow> 'a Array1" where
  "NewArray1 junk c n = \<lparr>Dim = n, Offset1 = 0, Region1 = NewRegion junk c n\<rparr>"

definition NewArray2 :: "(nat \<Rightarrow> 'a) \<Rightarrow> Context \<Rightarrow> nat \<Rightarrow> nat \<Rightarrow> 'a Array2" where
  "NewArray2 junk c rows cols =
     \<lparr>Dim0 = rows, Dim1 = cols, ElemStride0 = cols, Offset2 = 0,
      Region2 = NewRegion junk c (rows * cols)\<rparr>"

text \<open>Writing through \<open>T *p = a.Data()\<close>: \<open>p[k] = v\<close> on the contents of \<open>a\<close>'s region.\<close>

definition poke :: "nat \<Rightarrow> nat \<Rightarrow> 'a \<Rightarrow> 'a list \<Rightarrow> 'a list" where
  "poke off k v = (\<lambda>mem. mem[off + k := v])"

definition set_data1 :: "'a Array1 \<Rightarrow> 'a list \<Rightarrow> 'a Array1" where
  "set_data1 a mem = a\<lparr>Region1 := (Region1 a)\<lparr>data := mem\<rparr>\<rparr>"

definition set_data2 :: "'a Array2 \<Rightarrow> 'a list \<Rightarrow> 'a Array2" where
  "set_data2 a mem = a\<lparr>Region2 := (Region2 a)\<lparr>data := mem\<rparr>\<rparr>"

section \<open>Parallel-for dispatch\<close>

text \<open>
  Modelled from the spec: \<open>Eval\<close> and \<open>Eval2\<close> are declared outside
  \<open>array_ops_inl.h\<close>.  They invoke the index function once per index of a 1-D or 2-D
  range, as a nested sequential loop on the host.  On the accelerator the calls run
  in no fixed order; the index functions of this file write each cell from one
  index only, so the sequential order below stands for every order.
\<close>

definition Eval :: "Context \<Rightarrow> nat \<Rightarrow> (nat \<Rightarrow> 's \<Rightarrow> 's) \<Rightarrow> 's \<Rightarrow> 's" where
  "Eval c n f s = fold f [0..<n] s"

definition Eval2 :: "Context \<Rightarrow> nat \<Rightarrow> nat \<Rightarrow> (nat \<Rightarrow> nat \<Rightarrow> 's \<Rightarrow> 's) \<Rightarrow> 's \<Rightarrow> 's" where
  "Eval2 c m n f s = fold (\<lambda>i. fold (\<lambda>j. f i j) [0..<n]) [0..<m] s"

section \<open>ToContiguous\<close>

definition ToContiguous :: "(nat \<Rightarrow> 'a) \<Rightarrow> 'a Array2 \<Rightarrow> 'a Array2" where
  "ToContiguous junk src =
     (let dim0 = Dim0 src;
          dim1 = Dim1 src;
          elem_stride0 = ElemStride0 src
      in if dim1 = elem_stride0 then src
         else
           let ans = NewArray2 junk (Context2 src) (Dim0 src) (Dim1 src);
               lambda_copy_elems =
                 (\<lambda>i j out. poke (Offset2 ans) (i * dim1 + j)
                                (Data2 src (i * elem_stride0 + j)) out)
           in set_data2 ans
                (Eval2 (Context2 src) dim0 dim1 lambda_copy_elems (data (Region2 ans))))"

section \<open>Range\<close>

text \<open>The source's \<open>Range\<close>; the name carries a suffix because HOL has a \<open>Range\<close> of its own.\<close>

definition Range1 ::
  "(nat \<Rightarrow> 'a) \<Rightarrow> Context \<Rightarrow> int \<Rightarrow> 'a::semiring_1 \<Rightarrow> 'a \<Rightarrow> error + 'a Array1" where
  "Range1 junk c dim first_value inc =
     (if \<not> (dim \<ge> 0) then Inl CheckFailed
      else
        let d = GetDeviceType c;
            ans = NewArray1 junk c (nat dim)
        in if d = kCpu then
             Inr (set_data1 ans
                   (fold (\<lambda>i ans_data. poke (Offset1 ans) i (first_value + of_nat i * inc) ans_data)
                      [0..<nat dim] (data (Region1 ans))))
           else
             let lambda_set_values =
                   (\<lambda>i ans_data. poke (Offset1 ans) i (first_value + of_nat i * inc) ans_data)
             in Inr (set_data1 ans (Eval c (nat dim) lambda_set_values (data (Region1 ans)))))"

section \<open>Append\<close>

text \<open>
  The pointer-array form.  \<open>src\<close> is the array of pointers, given as the list of the
  arrays pointed to.  First the loop that fills \<open>row_splits_vec\<close>, \<open>sum\<close> and \<open>max_dim\<close>.
\<close>

definition Append_row_splits :: "nat \<Rightarrow> 'a Array1 list \<Rightarrow> nat list \<times> nat \<times> nat" where
  "Append_row_splits num_arrays src =
     fold (\<lambda>i (row_splits_vec, sum, max_dim).
             let dim = Dim (src ! i);
                 max_dim = (if dim > max_dim then dim else max_dim);
                 sum = sum + dim
             in (row_splits_vec[i + 1 := sum], sum, max_dim))
          [0..<num_arrays] ((replicate (num_arrays + 1) 0)[0 := 0], 0, 0)"

text \<open>
  \<open>memcpy\<close> of \<open>n\<close> elements (\<open>sizeof(T) * n\<close> bytes) from the pointer \<open>src\<close> to position
  \<open>dst\<close> of a region.
\<close>

definition memcpy :: "nat \<Rightarrow> (nat \<Rightarrow> 'a) \<Rightarrow> nat \<Rightarrow> 'a list \<Rightarrow> 'a list" where
  "memcpy dst src n mem = fold (\<lambda>k mem. mem[dst + k := src k]) [0..<n] mem"

text \<open>The host branch: the state is the region of \<open>ans\<close> and the moving pointer \<open>ans_data\<close>.\<close>

definition Append_cpu ::
  "nat \<Rightarrow> 'a Array1 list \<Rightarrow> nat list \<Rightarrow> 'a Array1 \<Rightarrow> 'a list" where
  "Append_cpu num_arrays src row_splits_vec ans =
     fst (fold (\<lambda>i (mem, ans_data).
                  let offset = row_splits_vec ! i;
                      this_dim = Dim (src ! i);
                      this_src_data = Data1 (src ! i)
                  in (memcpy ans_data this_src_data this_dim mem, ans_data + this_dim))
            [0..<num_arrays] (data (Region1 ans), Offset1 ans))"

text \<open>The rectangular strategy of the accelerator branch.\<close>

definition Append_rect ::
  "Context \<Rightarrow> nat \<Rightarrow> nat \<Rightarrow> 'a Array1 list \<Rightarrow> nat list \<Rightarrow> 'a Array1 \<Rightarrow> 'a list" where
  "Append_rect c num_arrays max_dim src row_splits ans =
     (let src_ptrs_data = map (\<lambda>i. Data1 (src ! i)) [0..<num_arrays];
          lambda_set_data =
            (\<lambda>i j mem.
               let row_start = row_splits ! i;
                   row_end = row_splits ! (i + 1);
                   src_ptr = src_ptrs_data ! i
               in if int j < int row_end - int row_start
                  then poke (Offset1 ans) (row_start + j) (src_ptr j) mem
                  else mem)
      in Eval2 c num_arrays max_dim lambda_set_data (data (Region1 ans)))"

text \<open>
  The block-balanced strategy.  The doubling loop of \<open>block_dim\<close> is a loop that need
  not end for every start value, so it returns an option.  An entry of \<open>index_map\<close> is
  the 64-bit word \<open>(j << 32) + i\<close>; the kernel takes its low 32 bits as \<open>orig_i\<close> and its
  high 32 bits as \<open>block_index\<close>.  \<open>index_map.reserve\<close> has no effect on the contents and
  is left out.  \<open>orig_j\<close> is computed on natural numbers: it stays below the size of a
  source plus \<open>block_dim\<close>, so the 32-bit arithmetic of the source does not wrap.
\<close>

partial_function (option) Append_block_dim :: "nat \<Rightarrow> nat \<Rightarrow> nat option" where
  "Append_block_dim block_dim avg_input_size =
     (if block_dim * 4 < avg_input_size \<and> block_dim < 8192
      then Append_block_dim (block_dim * 2) avg_input_size
      else Some block_dim)"

declare Append_block_dim.simps [code]

definition Append_index_map :: "nat \<Rightarrow> 'a Array1 list \<Rightarrow> nat \<Rightarrow> 64 word list" where
  "Append_index_map num_arrays src block_dim =
     fold (\<lambda>i index_map.
             let this_array_size = Dim (src ! i);
                 this_num_blocks = (this_array_size + block_dim - 1) div block_dim
             in fold (\<lambda>j index_map. index_map @ [push_bit 32 (of_nat j) + of_nat i])
                  [0..<this_num_blocks] index_map)
          [0..<num_arrays] []"

definition Append_blocks ::
  "Context \<Rightarrow> nat \<Rightarrow> nat \<Rightarrow> 'a Array1 list \<Rightarrow> nat list \<Rightarrow> 'a Array1 \<Rightarrow> 'a list" where
  "Append_blocks c num_arrays block_dim src row_splits ans =
     (let src_ptrs_data = map (\<lambda>i. Data1 (src ! i)) [0..<num_arrays];
          index_map = Append_index_map num_arrays src block_dim;
          lambda_set_data_blocks =
            (\<lambda>i j mem.
               let index = index_map ! i;
                   orig_i = unat (ucast index :: 32 word);
                   block_index = unat (ucast (drop_bit 32 index) :: 32 word);
                   row_start = row_splits ! orig_i;
                   row_end = row_splits ! (orig_i + 1);
                   orig_j = block_index * block_dim + j;
                   src_ptr = src_ptrs_data ! orig_i
               in if int orig_j < int row_end - int row_start
                  then poke (Offset1 ans) (row_start + orig_j) (src_ptr orig_j) mem
                  else mem)
      in Eval2 c (length index_map) block_dim lambda_set_data_blocks (data (Region1 ans)))"

text \<open>
  The body of \<open>Append\<close> up to its closing brace: the check, the row splits, the
  allocation of \<open>ans\<close> and the copy.  The result is the local state at the closing
  brace, \<open>row_splits_vec\<close> and \<open>ans\<close>; \<open>None\<close> stands for a doubling loop that does not
  end.
\<close>

definition Append_body ::
  "(nat \<Rightarrow> 'a) \<Rightarrow> int \<Rightarrow> 'a Array1 list \<Rightarrow> (error + nat list \<times> 'a Array1) option" where
  "Append_body junk num_arrays src =
     (if \<not> (num_arrays > 0) then Some (Inl CheckFailed)
      else
        let n = nat num_arrays;
            c = Context1 (src ! 0);
            (row_splits_vec, sum, max_dim) = Append_row_splits n src;
            ans_size = sum;
            ans = NewArray1 junk c ans_size
        in if GetDeviceType c = kCpu then
             Some (Inr (row_splits_vec, set_data1 ans (Append_cpu n src row_splits_vec ans)))
           else if GetDeviceType c \<noteq> kCuda then Some (Inl CheckFailed)
           else
             let avg_input_size = ans_size div n
             in if max_dim < 2 * avg_input_size + 512 then
                  Some (Inr (row_splits_vec,
                             set_data1 ans (Append_rect c n max_dim src row_splits_vec ans)))
                else
                  (case Append_block_dim 256 avg_input_size of
                     None \<Rightarrow> None
                   | Some block_dim \<Rightarrow>
                       Some (Inr (row_splits_vec,
                                  set_data1 ans
                                    (Append_blocks c n block_dim src row_splits_vec ans)))))"

text \<open>
  \<open>Append\<close> itself.  The source function is declared to return \<open>Array1<T>\<close>, and its
  body ends after the copy without a \<open>return\<close> statement: when the body reaches the
  closing brace, \<open>ans\<close> is dropped and the caller receives no array.
\<close>

definition Append ::
  "(nat \<Rightarrow> 'a) \<Rightarrow> int \<Rightarrow> 'a Array1 list \<Rightarrow> (error + 'a Array1) option" where
  "Append junk num_arrays src =
     (case Append_body junk num_arrays src of
        None \<Rightarrow> None
      | Some (Inl e) \<Rightarrow> Some (Inl e)
      | Some (Inr locals) \<Rightarrow> Some (Inl MissingReturn))"

text \<open>
  The flat-array overload \<open>Append(int32_t src_size, Array1<T> *src)\<close>.  \<open>srcs[i] = src + i\<close>
  stores the address of the \<open>i\<close>-th array, modelled by its index.
\<close>

definition Append_flat :: "int \<Rightarrow> 'a Array1 list \<Rightarrow> error + 'a Array1" where
  "Append_flat src_size src =
     (if \<not> (src_size > 0) then Inl CheckFailed
      else
        let srcs = map (\<lambda>i. i) [0..<nat src_size]
        in Inl (FatalLog ''Not Implemented''))"

text \<open>
  For the statements about \<open>Append\<close>: \<open>offs src k\<close> is the total size of the first \<open>k\<close>
  sources, the place in the result where source \<open>k\<close> starts.
\<close>

definition offs :: "'a Array1 list \<Rightarrow> nat \<Rightarrow> nat" where
  "offs src k = sum_list (map Dim (take k src))"

section \<open>Per-sublist reductions\<close>

text \<open>
  Modelled from the spec: a ragged shape is the ordered list of its row-splits
  arrays, and a ragged array is a shape with a flat values array.  A two-axis array
  has one row-splits array, \<open>RowSplits(1)\<close>, of length \<open>Dim0 + 1\<close>.
\<close>

record RaggedShape =
  ShapeContext :: Context
  RowSplitsList :: "nat list list"

record 'a Ragged =
  shape :: RaggedShape
  values_of :: "'a Array1"

definition NumAxes :: "RaggedShape \<Rightarrow> nat" where
  "NumAxes sh = length (RowSplitsList sh) + 1"

definition RowSplits :: "RaggedShape \<Rightarrow> nat \<Rightarrow> nat list" where
  "RowSplits sh axis = RowSplitsList sh ! (axis - 1)"

definition ShapeDim0 :: "RaggedShape \<Rightarrow> nat" where
  "ShapeDim0 sh = length (RowSplits sh 1) - 1"

text \<open>The inner loop of the host branch: \<open>for (; j < row_end; j++)\<close>.\<close>

function MaxPerSublist_row :: "(nat \<Rightarrow> 'a::linorder) \<Rightarrow> nat \<Rightarrow> nat \<Rightarrow> 'a \<Rightarrow> nat \<times> 'a" where
  "MaxPerSublist_row values_data row_end j max_val =
     (if j < row_end then
        let elem = values_data j
        in MaxPerSublist_row values_data row_end (j + 1) (if elem > max_val then elem else max_val)
      else (j, max_val))"
  by pat_completeness auto
termination
  by (relation "measure (\<lambda>(values_data, row_end, j, max_val). row_end - j)") auto

declare MaxPerSublist_row.simps [simp del]

text \<open>
  Modelled from the spec: \<open>MaxOp\<close> and the device-wide segmented reduction are not in
  \<open>array_ops_inl.h\<close>.  The reduction writes, for every segment \<open>i\<close>, the reduction of
  the values from \<open>begin_offsets[i]\<close> up to \<open>end_offsets[i]\<close> with the operator, started at
  the initial value.  The source calls it twice: the first call, with no scratch
  storage, only sizes the storage and writes nothing; the second is the reduction.
\<close>

definition MaxOp :: "'a::linorder \<Rightarrow> 'a \<Rightarrow> 'a" where
  "MaxOp a b = (if a > b then a else b)"

definition DeviceSegmentedReduce ::
  "(nat \<Rightarrow> 'a) \<Rightarrow> nat \<Rightarrow> nat \<Rightarrow> (nat \<Rightarrow> nat) \<Rightarrow> (nat \<Rightarrow> nat) \<Rightarrow> ('a \<Rightarrow> 'a \<Rightarrow> 'a) \<Rightarrow> 'a \<Rightarrow>
     'a list \<Rightarrow> 'a list" where
  "DeviceSegmentedReduce d_in d_out num_segments begin_offsets end_offsets reduction_op initial mem =
     fold (\<lambda>i mem.
             mem[d_out + i :=
                   fold (\<lambda>k acc. reduction_op acc (d_in k))
                     [begin_offsets i..<end_offsets i] initial])
          [0..<num_segments] mem"

definition MaxPerSublist :: "'a::linorder Ragged \<Rightarrow> 'a \<Rightarrow> 'a Array1 \<Rightarrow> error + 'a Array1" where
  "MaxPerSublist src default_value max_values =
     (if NumAxes (shape src) \<noteq> 2 then Inl CheckFailed
      else if ShapeDim0 (shape src) \<noteq> Dim max_values then Inl CheckFailed
      else if \<not> IsCompatible (ShapeContext (shape src)) (Context1 max_values) then Inl CheckFailed
      else
        let c = ShapeContext (shape src);
            num_rows = ShapeDim0 (shape src);
            row_splits = RowSplits (shape src) 1;
            values_data = Data1 (values_of src)
        in if GetDeviceType c = kCpu then
             Inr (set_data1 max_values
                   (snd (fold (\<lambda>i (j, output_data).
                                 let max_val = default_value;
                                     row_end = row_splits ! (i + 1);
                                     (j, max_val) = MaxPerSublist_row values_data row_end j max_val
                                 in (j, poke (Offset1 max_values) i max_val output_data))
                           [0..<num_rows] (row_splits ! 0, data (Region1 max_values)))))
           else if GetDeviceType c \<noteq> kCuda then Inl CheckFailed
           else
             Inr (set_data1 max_values
                   (DeviceSegmentedReduce values_data (Offset1 max_values) num_rows
                      (\<lambda>i. row_splits ! i) (\<lambda>i. row_splits ! (i + 1)) MaxOp default_value
                      (data (Region1 max_values)))))"

definition And :: "'a Array1 \<Rightarrow> 'a \<Rightarrow> 'a Array1 \<Rightarrow> error + 'a Array1" where
  "And src default_value dest = Inl (FatalLog ''Not implemented'')"

text \<open>
  The elements of row \<open>i\<close> of a two-axis ragged array, and the data model's invariant
  of such an array: one row-splits array, non-decreasing, starting at 0 and ending
  at the number of values.
\<close>

definition RowElems :: "'a Ragged \<Rightarrow> nat \<Rightarrow> 'a list" where
  "RowElems src i =
     map (Data1 (values_of src))
       [RowSplits (shape src) 1 ! i..<RowSplits (shape src) 1 ! (i + 1)]"

definition Ragged2_ok :: "'a Ragged \<Rightarrow> bool" where
  "Ragged2_ok src =
     (length (RowSplitsList (shape src)) = 1 \<and>
      RowSplits (shape src) 1 \<noteq> [] \<and>
      sorted (RowSplits (shape src) 1) \<and>
      hd (RowSplits (shape src) 1) = 0 \<and>
      last (RowSplits (shape src) 1) = Dim (values_of src) \<and>
      Array1_ok (values_of src))"

section \<open>RandUniformArray1\<close>

text \<open>
  Modelled for the element type \<open>int32_t\<close>: values are integers, and every result of
  arithmetic in the element type is reduced to 32 bits in two's complement.  Division
  and remainder truncate towards zero, as in C++.  \<open>rand i\<close> is the value of the
  \<open>i\<close>-th call of \<open>rand()\<close> and \<open>RAND_MAX\<close> is the constant of the C library; both are
  parameters.  \<open>dim\<close> is a natural number: the array constructor, which is not in
  this file, takes the size.  A remainder by zero, which C++ leaves undefined, can
  only come up when \<open>max_value + 1 - min_value\<close> wraps around to zero.
\<close>

definition int32 :: "int \<Rightarrow> int" where
  "int32 x = sint (word_of_int x :: 32 word)"

definition tdiv :: "int \<Rightarrow> int \<Rightarrow> int" where
  "tdiv a b = sgn a * sgn b * (\<bar>a\<bar> div \<bar>b\<bar>)"

definition tmod :: "int \<Rightarrow> int \<Rightarrow> int" where
  "tmod a b = a - b * tdiv a b"

definition is_floating_point_int32 :: bool where
  "is_floating_point_int32 = False"

text \<open>
  Modelled from the spec: \<open>To(c)\<close> transfers an array to the target context, as a
  fresh array holding the same elements.
\<close>

definition To :: "Context \<Rightarrow> 'a Array1 \<Rightarrow> 'a Array1" where
  "To c a = \<lparr>Dim = Dim a, Offset1 = 0, Region1 = \<lparr>ctx = c, data = Elems1 a\<rparr>\<rparr>"

definition RandUniformArray1 ::
  "(nat \<Rightarrow> int) \<Rightarrow> (nat \<Rightarrow> int) \<Rightarrow> int \<Rightarrow> Context \<Rightarrow> nat \<Rightarrow> int \<Rightarrow> int \<Rightarrow> error + int Array1" where
  "RandUniformArray1 junk rand RAND_MAX c dim min_value max_value =
     (let temp = NewArray1 junk GetCpuContext dim
      in if \<not> (max_value \<ge> min_value) then Inl CheckFailed
         else
           let filled =
                 (if max_value = min_value then
                    fold (\<lambda>i mem. poke (Offset1 temp) i 0 mem) [0..<dim] (data (Region1 temp))
                  else if is_floating_point_int32 \<or> \<bar>min_value\<bar> > RAND_MAX \<or> \<bar>max_value\<bar> > RAND_MAX then
                    fold (\<lambda>i mem.
                            poke (Offset1 temp) i
                              (int32 (min_value +
                                 tdiv (int32 (rand i * int32 (max_value - min_value))) RAND_MAX))
                              mem)
                      [0..<dim] (data (Region1 temp))
                  else
                    fold (\<lambda>i mem.
                            poke (Offset1 temp) i
                              (int32 (min_value +
                                 tmod (rand i) (int32 (int32 (max_value + 1) - min_value))))
                              mem)
                      [0..<dim] (data (Region1 temp)))
           in Inr (To c (set_data1 temp filled)))"

section \<open>Transpose\<close>

definition kTransTileDim :: nat where
  "kTransTileDim = 32"

definition kTransBlockRows :: nat where
  "kTransBlockRows = 8"

text \<open>
  Modelled from the spec: \<open>NumBlocks\<close> is declared outside this file; the grid has one
  block per tile of the fixed size, enough tiles to cover the range.
\<close>

definition NumBlocks :: "nat \<Rightarrow> nat \<Rightarrow> nat" where
  "NumBlocks sz block_size = (sz + block_size - 1) div block_size"

text \<open>
  The kernel, for one thread \<open>(tx, ty)\<close> of one block \<open>(bx, by)\<close>.  The shared
  \<open>cache[kTransTileDim][kTransTileDim + 1]\<close> is a flat list in row-major order.  The
  loop \<open>for (i = 0; i < kTransTileDim; i += kTransBlockRows)\<close> runs over the list
  \<open>TransposeKernel_steps\<close>.  \<open>TransposeKernel_load\<close> is the part of the thread before
  \<open>__syncthreads()\<close> and \<open>TransposeKernel_store\<close> the part after it.
\<close>

definition TransposeKernel_steps :: "nat list" where
  "TransposeKernel_steps =
     map (\<lambda>k. k * kTransBlockRows) [0..<(kTransTileDim + kTransBlockRows - 1) div kTransBlockRows]"

definition TransposeKernel_load ::
  "nat \<Rightarrow> nat \<Rightarrow> nat \<Rightarrow> (nat \<Rightarrow> 'a) \<Rightarrow> nat \<times> nat \<Rightarrow> nat \<times> nat \<Rightarrow> 'a list \<Rightarrow> 'a list" where
  "TransposeKernel_load rows cols input_elem_stride0 input blockIdx threadIdx cache =
     (let x = fst threadIdx + fst blockIdx * kTransTileDim;
          y = snd threadIdx + snd blockIdx * kTransTileDim
      in fold (\<lambda>i cache.
                 if x < cols \<and> y + i < rows
                 then cache[(snd threadIdx + i) * (kTransTileDim + 1) + fst threadIdx :=
                              input ((y + i) * input_elem_stride0 + x)]
                 else cache)
           TransposeKernel_steps cache)"

definition TransposeKernel_store ::
  "nat \<Rightarrow> nat \<Rightarrow> nat \<Rightarrow> nat \<Rightarrow> 'a list \<Rightarrow> nat \<times> nat \<Rightarrow> nat \<times> nat \<Rightarrow> 'a list \<Rightarrow> 'a list" where
  "TransposeKernel_store rows cols output_elem_stride0 output cache blockIdx threadIdx mem =
     (let x = fst threadIdx + snd blockIdx * kTransTileDim;
          y = snd threadIdx + fst blockIdx * kTransTileDim
      in fold (\<lambda>i mem.
                 if x < rows \<and> y + i < cols
                 then mem[output + ((y + i) * output_elem_stride0 + x) :=
                            cache ! (fst threadIdx * (kTransTileDim + 1) + (snd threadIdx + i))]
                 else mem)
           TransposeKernel_steps mem)"

text \<open>
  One block: all its threads run up to the barrier, filling the cache (whose old
  contents are arbitrary), then all run the part after it.  Each thread writes
  cache cells and output cells of its own, so running the threads one after the
  other stands for every interleaving.  The launch runs every block of the grid.
\<close>

definition TransposeKernel_block ::
  "(nat \<Rightarrow> 'a) \<Rightarrow> nat \<times> nat \<Rightarrow> nat \<Rightarrow> nat \<Rightarrow> nat \<Rightarrow> nat \<Rightarrow> (nat \<Rightarrow> 'a) \<Rightarrow> nat \<Rightarrow>
     nat \<times> nat \<Rightarrow> 'a list \<Rightarrow> 'a list" where
  "TransposeKernel_block junk block_size rows cols input_elem_stride0 output_elem_stride0 input output
       blockIdx mem =
     (let threads = List.product [0..<fst block_size] [0..<snd block_size];
          cache = fold (TransposeKernel_load rows cols input_elem_stride0 input blockIdx) threads
                    (map junk [0..<kTransTileDim * (kTransTileDim + 1)])
      in fold (TransposeKernel_store rows cols output_elem_stride0 output cache blockIdx) threads mem)"

definition TransposeKernel ::
  "(nat \<Rightarrow> 'a) \<Rightarrow> nat \<times> nat \<Rightarrow> nat \<times> nat \<Rightarrow> nat \<Rightarrow> nat \<Rightarrow> nat \<Rightarrow> nat \<Rightarrow> (nat \<Rightarrow> 'a) \<Rightarrow> nat \<Rightarrow>
     'a list \<Rightarrow> 'a list" where
  "TransposeKernel junk grid_size block_size rows cols input_elem_stride0 output_elem_stride0
       input output mem =
     fold (TransposeKernel_block junk block_size rows cols input_elem_stride0 output_elem_stride0
             input output)
       (List.product [0..<fst grid_size] [0..<snd grid_size]) mem"

text \<open>
  The writes of the whole launch, for the proofs: the thread \<open>fst p\<close> of block \<open>b\<close>
  at step \<open>snd p\<close> stores, when \<open>store_P\<close> holds, the value \<open>store_val\<close> at
  position \<open>store_idx\<close> of the output region.
\<close>

definition store_P :: "nat \<Rightarrow> nat \<Rightarrow> (nat \<times> nat) \<Rightarrow> ((nat \<times> nat) \<times> nat) \<Rightarrow> bool" where
  "store_P rows cols b p =
     (fst (fst p) + snd b * 32 < rows \<and> (snd (fst p) + snd p) + fst b * 32 < cols)"

definition store_idx :: "nat \<Rightarrow> nat \<Rightarrow> (nat \<times> nat) \<Rightarrow> ((nat \<times> nat) \<times> nat) \<Rightarrow> nat" where
  "store_idx os out b p =
     out + (((snd (fst p) + snd p) + fst b * 32) * os + (fst (fst p) + snd b * 32))"

definition store_val :: "nat \<Rightarrow> (nat \<Rightarrow> 'a) \<Rightarrow> (nat \<times> nat) \<Rightarrow> ((nat \<times> nat) \<times> nat) \<Rightarrow> 'a" where
  "store_val iss input b p =
     input ((fst (fst p) + snd b * 32) * iss + ((snd (fst p) + snd p) + fst b * 32))"

text \<open>
  \<open>Transpose\<close> writes into the region of \<open>dest\<close> and returns the updated view.  Source
  and destination are views of different regions.  The device synchronisation after
  the launch is taken to succeed.
\<close>

definition Transpose :: "(nat \<Rightarrow> 'a) \<Rightarrow> Context \<Rightarrow> 'a Array2 \<Rightarrow> 'a Array2 \<Rightarrow> error + 'a Array2" where
  "Transpose junk c src dest =
     (if \<not> IsCompatible c (Context2 src) then Inl CheckFailed
      else if \<not> IsCompatible c (Context2 dest) then Inl CheckFailed
      else
        let rows = Dim0 src;
            cols = Dim1 src
        in if rows \<noteq> Dim1 dest then Inl CheckFailed
           else if cols \<noteq> Dim0 dest then Inl CheckFailed
           else
             let src_elem_stride0 = ElemStride0 src;
                 dest_elem_stride0 = ElemStride0 dest;
                 src_data = Data2 src;
                 d = GetDeviceType c
             in if d = kCpu then
                  Inr (set_data2 dest
                        (fold (\<lambda>i. fold (\<lambda>j dest_data.
                                           poke (Offset2 dest) (i * dest_elem_stride0 + j)
                                             (src_data (j * src_elem_stride0 + i)) dest_data)
                                      [0..<rows])
                           [0..<cols] (data (Region2 dest))))
                else if d \<noteq> kCuda then Inl CheckFailed
                else
                  let block_size = (kTransTileDim, kTransBlockRows);
                      grid_size = (NumBlocks cols kTransTileDim, NumBlocks rows kTransTileDim)
                  in Inr (set_data2 dest
                           (TransposeKernel junk grid_size block_size rows cols src_elem_stride0
                              dest_elem_stride0 src_data (Offset2 dest) (data (Region2 dest)))))"

text \<open>
  The contents of the destination region after \<open>Transpose\<close>, for the proofs: the
  host loops or the kernel launch.
\<close>

definition Transpose_data :: "(nat \<Rightarrow> 'a) \<Rightarrow> Context \<Rightarrow> 'a Array2 \<Rightarrow> 'a Array2 \<Rightarrow> 'a list" where
  "Transpose_data junk c src dest =
     (if GetDeviceType c = kCpu then
        Eval2 c (Dim1 src) (Dim0 src)
          (\<lambda>i j xs. xs[Offset2 dest + (i * ElemStride0 dest + j) := Data2 src (j * ElemStride0 src + i)])
          (data (Region2 dest))
      else
        TransposeKernel junk (NumBlocks (Dim1 src) kTransTileDim, NumBlocks (Dim0 src) kTransTileDim)
          (kTransTileDim, kTransBlockRows) (Dim0 src) (Dim1 src) (ElemStride0 src) (ElemStride0 dest)
          (Data2 src) (Offset2 dest) (data (Region2 dest)))"

section \<open>ExclusiveSum\<close>

text \<open>
  Modelled from the spec: the 1-D \<open>ExclusiveSum(context, n, src, dest)\<close> is declared
  outside this file.  It computes \<open>dest[0] = 0, dest[i] = dest[i-1] + src[i-1]\<close> for the
  \<open>n\<close> elements of \<open>dest\<close>; \<open>src\<close> is anything that can be indexed, \<open>dest\<close> a position in
  a region.  The sum is taken in the element type.
\<close>

definition ExclusiveSum1D ::
  "Context \<Rightarrow> nat \<Rightarrow> (nat \<Rightarrow> 'a::monoid_add) \<Rightarrow> nat \<Rightarrow> 'a list \<Rightarrow> 'a list" where
  "ExclusiveSum1D c n src dest mem =
     fold (\<lambda>i mem. mem[dest + i := (if i = 0 then 0 else mem ! (dest + (i - 1)) + src (i - 1))])
       [0..<n] mem"

text \<open>
  Modelled from the spec: the accessors' \<open>Row(i)\<close> is the pointer to the first element
  of row \<open>i\<close> of a matrix view.
\<close>

definition Row :: "'a Array2 \<Rightarrow> nat \<Rightarrow> nat \<Rightarrow> 'a" where
  "Row a i k = Data2 a (i * ElemStride0 a + k)"

definition ExclusiveSumPerRow :: "'a::monoid_add Array2 \<Rightarrow> 'a Array2 \<Rightarrow> 'a Array2" where
  "ExclusiveSumPerRow src dest =
     (let rows = Dim0 dest;
          cols = Dim1 dest;
          c = Context2 src
      in set_data2 dest
           (fold (\<lambda>i mem. ExclusiveSum1D c cols (Row src i) (Offset2 dest + i * ElemStride0 dest) mem)
              [0..<rows] (data (Region2 dest))))"

text \<open>
  \<open>ExclusiveSumDeref\<close>: the source array holds pointers; \<open>deref\<close> reads the value a
  pointer refers to, as \<open>PtrPtr::operator[]\<close> does.
\<close>

definition ExclusiveSumDeref ::
  "('p \<Rightarrow> 'a::monoid_add) \<Rightarrow> 'p Array1 \<Rightarrow> 'a Array1 \<Rightarrow> error + 'a Array1" where
  "ExclusiveSumDeref deref src dest =
     (if \<not> IsCompatible (Context1 src) (Context1 dest) then Inl CheckFailed
      else
        let src_dim = Dim src;
            dest_dim = Dim dest
        in if \<not> (dest_dim = src_dim \<or> dest_dim = src_dim + 1) then Inl CheckFailed
           else if dest_dim = src_dim + 1 \<and>
                   \<not> (int (length (data (Region1 src))) - int (Offset1 src) \<ge> int dest_dim)
                then Inl CheckFailed
           else
             let src_data = (\<lambda>i. deref (Data1 src i))
             in Inr (set_data1 dest
                      (ExclusiveSum1D (Context1 src) dest_dim src_data (Offset1 dest)
                         (data (Region1 dest)))))"

text \<open>The 2-D exclusive sum along \<open>axis\<close>.\<close>

definition ExclusiveSum ::
  "(nat \<Rightarrow> 'a) \<Rightarrow> 'a::monoid_add Array2 \<Rightarrow> 'a Array2 \<Rightarrow> int \<Rightarrow> error + 'a Array2" where
  "ExclusiveSum junk src dest axis =
     (if \<not> (axis = 0 \<or> axis = 1) then Inl CheckFailed
      else if \<not> IsCompatible (Context2 src) (Context2 dest) then Inl CheckFailed
      else
        let (src_major_dim, src_minor_dim) =
              (if axis = 1 then (Dim1 src, Dim0 src) else (Dim0 src, Dim1 src));
            (dest_major_dim, dest_minor_dim) =
              (if axis = 1 then (Dim1 dest, Dim0 dest) else (Dim0 dest, Dim1 dest))
        in if dest_minor_dim \<noteq> src_minor_dim then Inl CheckFailed
           else if \<not> (dest_major_dim = src_major_dim \<or> dest_major_dim = src_major_dim + 1)
                then Inl CheckFailed
           else if dest_major_dim = src_major_dim + 1 \<and>
                   \<not> (int (length (data (Region2 src))) - int (Offset2 src)
                        \<ge> int (src_major_dim * src_minor_dim + 1))
                then Inl CheckFailed
           else if axis = 1 then Inr (ExclusiveSumPerRow src dest)
           else
             let c = Context2 src;
                 src_trans_region = NewRegion junk c (src_major_dim * src_minor_dim + 1);
                 src_trans = \<lparr>Dim0 = src_minor_dim, Dim1 = src_major_dim,
                              ElemStride0 = src_major_dim, Offset2 = 0,
                              Region2 = src_trans_region\<rparr>
             in case Transpose junk c src src_trans of
                  Inl e \<Rightarrow> Inl e
                | Inr src_trans \<Rightarrow>
                    let dest_trans_region = NewRegion junk c (dest_major_dim * dest_minor_dim);
                        dest_trans = \<lparr>Dim0 = dest_minor_dim, Dim1 = dest_major_dim,
                                       ElemStride0 = dest_major_dim, Offset2 = 0,
                                       Region2 = dest_trans_region\<rparr>;
                        dest_trans = ExclusiveSumPerRow src_trans dest_trans
                    in Transpose junk c dest_trans dest)"

text \<open>
  The direct definition of an exclusive sum down column \<open>j\<close> of a matrix, in the
  words of the specification: entry 0 is 0 and entry \<open>i + 1\<close> adds the source's entry
  \<open>i\<close> of the column to entry \<open>i\<close>.
\<close>

fun column_exclusive_sum_spec :: "'a::monoid_add Array2 \<Rightarrow> nat \<Rightarrow> nat \<Rightarrow> 'a" where
  "column_exclusive_sum_spec src j 0 = 0"
| "column_exclusive_sum_spec src j (Suc i) = column_exclusive_sum_spec src j i + At2 src i j"

section \<open>Loops of writes\<close>

text \<open>
  \<open>writes P idx val ps\<close> is a loop over \<open>ps\<close> that stores \<open>val p\<close> at \<open>idx p\<close> when \<open>P p\<close>
  holds: the shape of every copy loop above.
\<close>

definition writes ::
  "('p \<Rightarrow> bool) \<Rightarrow> ('p \<Rightarrow> nat) \<Rightarrow> ('p \<Rightarrow> 'a) \<Rightarrow> 'p list \<Rightarrow> 'a list \<Rightarrow> 'a list" where
  "writes P idx val ps xs = fold (\<lambda>p xs. if P p then xs[idx p := val p] else xs) ps xs"

section \<open>Example inputs\<close>

text \<open>One possible old content of fresh memory, and concrete views for the examples.\<close>

definition zero_fill :: "nat \<Rightarrow> int" where
  "zero_fill k = 0"

definition example_strided :: "int Array2" where
  "example_strided =
     \<lparr>Dim0 = 2, Dim1 = 2, ElemStride0 = 3, Offset2 = 1,
      Region2 = \<lparr>ctx = CpuContext, data = [10, 11, 12, 13, 14, 15]\<rparr>\<rparr>"

definition example_contiguous :: "int Array2" where
  "example_contiguous =
     \<lparr>Dim0 = 2, Dim1 = 3, ElemStride0 = 3, Offset2 = 0,
      Region2 = \<lparr>ctx = CpuContext, data = [10, 11, 12, 13, 14, 15]\<rparr>\<rparr>"

text \<open>A ragged array with the rows \<open>[1, 2]\<close> and \<open>[]\<close>, in a given context.\<close>

definition example_ragged :: "Context \<Rightarrow> int Ragged" where
  "example_ragged c =
     \<lparr>shape = \<lparr>ShapeContext = c, RowSplitsList = [[0, 2, 2]]\<rparr>,
      values_of = \<lparr>Dim = 2, Offset1 = 0, Region1 = \<lparr>ctx = c, data = [1, 2]\<rparr>\<rparr>\<rparr>"

text \<open>
  The row \<open>[1, 2, 3, 4]\<close> in a region that has one more element behind it, and a
  destination of one row with five elements.
\<close>

definition example_sum_src :: "int Array2" where
  "example_sum_src =
     \<lparr>Dim0 = 1, Dim1 = 4, ElemStride0 = 4, Offset2 = 0,
      Region2 = \<lparr>ctx = CpuContext, data = [1, 2, 3, 4, 99]\<rparr>\<rparr>"

definition example_sum_dest :: "int Array2" where
  "example_sum_dest =
     \<lparr>Dim0 = 1, Dim1 = 5, ElemStride0 = 5, Offset2 = 0,
      Region2 = \<lparr>ctx = CpuContext, data = [7, 7, 7, 7, 7]\<rparr>\<rparr>"

text \<open>
  A strided 2 by 2 matrix \<open>[[11, 12], [14, 15]]\<close> in a given context, a strided
  destination for its transpose, and a contiguous destination for the way back.
\<close>

definition example_matrix :: "Context \<Rightarrow> int Array2" where
  "example_matrix c =
     \<lparr>Dim0 = 2, Dim1 = 2, ElemStride0 = 3, Offset2 = 1,
      Region2 = \<lparr>ctx = c, data = [10, 11, 12, 13, 14, 15]\<rparr>\<rparr>"

definition example_transposed :: "Context \<Rightarrow> int Array2" where
  "example_transposed c =
     \<lparr>Dim0 = 2, Dim1 = 2, ElemStride0 = 4, Offset2 = 0,
      Region2 = \<lparr>ctx = c, data = [0, 0, 0, 0, 0, 0, 0, 0]\<rparr>\<rparr>"

definition example_back :: "Context \<Rightarrow> int Array2" where
  "example_back c =
     \<lparr>Dim0 = 2, Dim1 = 2, ElemStride0 = 2, Offset2 = 0,
      Region2 = \<lparr>ctx = c, data = [0, 0, 0, 0]\<rparr>\<rparr>"

text \<open>A destination of 3 rows and 2 columns, for the sums down the columns of \<open>example_matrix\<close>.\<close>

definition example_columns_dest :: "Context \<Rightarrow> int Array2" where
  "example_columns_dest c =
     \<lparr>Dim0 = 3, Dim1 = 2, ElemStride0 = 2, Offset2 = 0,
      Region2 = \<lparr>ctx = c, data = [0, 0, 0, 0, 0, 0]\<rparr>\<rparr>"

text \<open>Three sources of the lengths 3, 0 and 5 in a given context.\<close>

definition example_sources :: "Context \<Rightarrow> int Array1 list" where
  "example_sources c =
     [\<lparr>Dim = 3, Offset1 = 0, Region1 = \<lparr>ctx = c, data = [1, 2, 3]\<rparr>\<rparr>,
      \<lparr>Dim = 0, Offset1 = 0, Region1 = \<lparr>ctx = c, data = []\<rparr>\<rparr>,
      \<lparr>Dim = 5, Offset1 = 1, Region1 = \<lparr>ctx = c, data = [0, 4, 5, 6, 7, 8]\<rparr>\<rparr>]"

section \<open>Facts about loops of writes\<close>

lemma fold_product:
  "fold (\<lambda>i. fold (\<lambda>j. f i j) ys) xs s = fold (\<lambda>(i, j). f i j) (List.product xs ys) s"
proof (induction xs arbitrary: s)
  case Nil
  show ?case by simp
next
  case (Cons x xs)
  have "fold (\<lambda>(i, j). f i j) (map (Pair x) ys) s = fold (f x) ys s"
    by (simp add: fold_map comp_def)
  with Cons show ?case by simp
qed

lemma writes_snoc:
  "writes P idx val (ps @ [p]) xs =
     (if P p then (writes P idx val ps xs)[idx p := val p] else writes P idx val ps xs)"
  by (simp add: writes_def)

lemma length_writes: "length (writes P idx val ps xs) = length xs"
  by (induction ps rule: rev_induct) (simp_all add: writes_snoc, simp add: writes_def)

text \<open>A cell that no step of the loop addresses keeps its content.\<close>

lemma writes_other:
  "(\<And>p. p \<in> set ps \<Longrightarrow> P p \<Longrightarrow> idx p \<noteq> k) \<Longrightarrow> writes P idx val ps xs ! k = xs ! k"
proof (induction ps rule: rev_induct)
  case Nil
  show ?case by (simp add: writes_def)
next
  case (snoc p ps)
  have "writes P idx val ps xs ! k = xs ! k"
    using snoc.prems by (intro snoc.IH) simp_all
  moreover have "P p \<Longrightarrow> idx p \<noteq> k" using snoc.prems by simp
  ultimately show ?case by (auto simp: writes_snoc)
qed

text \<open>
  When all steps that address the same cell store the same value, the order of the
  steps does not matter: the cell of a step holds that step's value at the end.
\<close>

lemma writes_hit:
  assumes cons: "\<And>p q. p \<in> set ps \<Longrightarrow> q \<in> set ps \<Longrightarrow> P p \<Longrightarrow> P q \<Longrightarrow> idx p = idx q \<Longrightarrow> val p = val q"
      and bound: "\<And>p. p \<in> set ps \<Longrightarrow> P p \<Longrightarrow> idx p < length xs"
      and mem: "q \<in> set ps" and Pq: "P q"
  shows "writes P idx val ps xs ! idx q = val q"
  using assms
proof (induction ps rule: rev_induct)
  case Nil
  then show ?case by simp
next
  case (snoc p ps)
  show ?case
  proof (cases "P p \<and> idx p = idx q")
    case True
    have "val p = val q" using snoc.prems(1)[of p q] snoc.prems(3,4) True by simp
    moreover have "idx p < length (writes P idx val ps xs)"
      using snoc.prems(2)[of p] True by (simp add: length_writes)
    ultimately show ?thesis using True by (simp add: writes_snoc)
  next
    case False
    then have "q \<in> set ps" using snoc.prems(3,4) by auto
    then have "writes P idx val ps xs ! idx q = val q"
      using snoc.prems by (intro snoc.IH) simp_all
    then show ?thesis using False by (auto simp: writes_snoc)
  qed
qed

lemma Eval2_writes:
  "Eval2 c m n (\<lambda>i j xs. if P i j then xs[idx i j := val i j] else xs) xs =
     writes (\<lambda>(i, j). P i j) (\<lambda>(i, j). idx i j) (\<lambda>(i, j). val i j)
       (List.product [0..<m] [0..<n]) xs"
  by (simp add: Eval2_def fold_product writes_def split_def)

lemma Eval2_hit:
  assumes cons: "\<And>i j i' j'. i < m \<Longrightarrow> j < n \<Longrightarrow> i' < m \<Longrightarrow> j' < n \<Longrightarrow> P i j \<Longrightarrow> P i' j' \<Longrightarrow>
                   idx i j = idx i' j' \<Longrightarrow> val i j = val i' j'"
      and bound: "\<And>i j. i < m \<Longrightarrow> j < n \<Longrightarrow> P i j \<Longrightarrow> idx i j < length xs"
      and "i < m" "j < n" "P i j"
  shows "Eval2 c m n (\<lambda>i j xs. if P i j then xs[idx i j := val i j] else xs) xs ! idx i j = val i j"
proof -
  let ?ps = "List.product [0..<m] [0..<n]"
  have "writes (\<lambda>(i, j). P i j) (\<lambda>(i, j). idx i j) (\<lambda>(i, j). val i j) ?ps xs !
          (\<lambda>(i, j). idx i j) (i, j) = (\<lambda>(i, j). val i j) (i, j)"
  proof (rule writes_hit)
    show "(i, j) \<in> set ?ps" using assms(3,4) by simp
    show "case (i, j) of (i, j) \<Rightarrow> P i j" using assms(5) by simp
  next
    fix p q assume "p \<in> set ?ps" "q \<in> set ?ps" "case p of (i, j) \<Rightarrow> P i j"
      "case q of (i, j) \<Rightarrow> P i j" "(case p of (i, j) \<Rightarrow> idx i j) = (case q of (i, j) \<Rightarrow> idx i j)"
    moreover obtain a b a' b' where "p = (a, b)" "q = (a', b')"
      by (metis surj_pair)
    ultimately show "(case p of (i, j) \<Rightarrow> val i j) = (case q of (i, j) \<Rightarrow> val i j)"
      using cons[of a b a' b'] by simp
  next
    fix p assume "p \<in> set ?ps" "case p of (i, j) \<Rightarrow> P i j"
    moreover obtain a b where "p = (a, b)" by (metis surj_pair)
    ultimately show "(case p of (i, j) \<Rightarrow> idx i j) < length xs"
      using bound[of a b] by simp
  qed
  then show ?thesis by (simp add: Eval2_writes)
qed

lemma Eval2_other:
  assumes "\<And>i j. i < m \<Longrightarrow> j < n \<Longrightarrow> P i j \<Longrightarrow> idx i j \<noteq> k"
  shows "Eval2 c m n (\<lambda>i j xs. if P i j then xs[idx i j := val i j] else xs) xs ! k = xs ! k"
  unfolding Eval2_writes
proof (rule writes_other)
  fix p assume "p \<in> set (List.product [0..<m] [0..<n])" "case p of (i, j) \<Rightarrow> P i j"
  moreover obtain a b where "p = (a, b)" by (metis surj_pair)
  ultimately show "(case p of (i, j) \<Rightarrow> idx i j) \<noteq> k"
    using assms[of a b] by simp
qed

lemma length_Eval2:
  "length (Eval2 c m n (\<lambda>i j xs. if P i j then xs[idx i j := val i j] else xs) xs) = length xs"
  by (simp add: Eval2_writes length_writes)

text \<open>The same facts for a loop that stores at every index.\<close>

lemma Eval2_set_hit:
  assumes cons: "\<And>i j i' j'. i < m \<Longrightarrow> j < n \<Longrightarrow> i' < m \<Longrightarrow> j' < n \<Longrightarrow>
                   idx i j = idx i' j' \<Longrightarrow> val i j = val i' j'"
      and bound: "\<And>i j. i < m \<Longrightarrow> j < n \<Longrightarrow> idx i j < length xs"
      and ij: "i < m" "j < n"
  shows "Eval2 c m n (\<lambda>i j xs. xs[idx i j := val i j]) xs ! idx i j = val i j"
proof -
  have "Eval2 c m n (\<lambda>i j xs. if (\<lambda>i j. True) i j then xs[idx i j := val i j] else xs) xs
          ! idx i j = val i j"
  proof (rule Eval2_hit)
    fix a b a' b' assume "a < m" "b < n" "a' < m" "b' < n" "idx a b = idx a' b'"
    then show "val a b = val a' b'" by (rule cons)
  next
    fix a b assume "a < m" "b < n"
    then show "idx a b < length xs" by (rule bound)
  qed (simp_all add: ij)
  then show ?thesis by simp
qed

lemma Eval2_set_other:
  assumes other: "\<And>i j. i < m \<Longrightarrow> j < n \<Longrightarrow> idx i j \<noteq> k"
  shows "Eval2 c m n (\<lambda>i j xs. xs[idx i j := val i j]) xs ! k = xs ! k"
proof -
  have "Eval2 c m n (\<lambda>i j xs. if (\<lambda>i j. True) i j then xs[idx i j := val i j] else xs) xs ! k
          = xs ! k"
  proof (rule Eval2_other)
    fix a b assume "a < m" "b < n"
    then show "idx a b \<noteq> k" by (rule other)
  qed
  then show ?thesis by simp
qed

lemma length_Eval2_set:
  "length (Eval2 c m n (\<lambda>i j xs. xs[idx i j := val i j]) xs) = length xs"
  using length_Eval2[where P = "\<lambda>i j. True" and idx = idx and val = val] by simp

lemma index_inj:
  fixes i j i' j' n :: nat
  assumes "j < n" "j' < n" "i * n + j = i' * n + j'"
  shows "i = i' \<and> j = j'"
proof -
  have "(i * n + j) div n = i" using assms(1) by simp
  moreover have "(i' * n + j') div n = i'" using assms(2) by simp
  ultimately have "i = i'" using assms(3) by simp
  then show ?thesis using assms(3) by simp
qed

lemma index_bound:
  fixes i j m n :: nat
  assumes "i < m" "j < n"
  shows "i * n + j < m * n"
proof -
  have "i * n + j < i * n + n" using assms by simp
  also have "\<dots> = (Suc i) * n" by simp
  also have "\<dots> \<le> m * n" using assms(1) by (intro mult_le_mono1) simp
  finally show ?thesis .
qed

section \<open>ToContiguous: the result\<close>

lemma ToContiguous_fields:
  "ElemStride0 (ToContiguous junk src) = Dim1 (ToContiguous junk src)"
  "Dim0 (ToContiguous junk src) = Dim0 src"
  "Dim1 (ToContiguous junk src) = Dim1 src"
  "Context2 (ToContiguous junk src) = Context2 src"
  by (simp_all add: ToContiguous_def Let_def NewArray2_def set_data2_def Context2_def NewRegion_def)

text \<open>
  Claim C6.  \<open>ToContiguous\<close> is idempotent: applied to its own result it returns that
  result; and an already contiguous view (row stride equal to the column count) is
  returned unchanged.
\<close>

theorem ToContiguous_idempotent:
  "ToContiguous junk (ToContiguous junk x) = ToContiguous junk x \<and>
   (ElemStride0 x = Dim1 x \<longrightarrow> ToContiguous junk x = x)"
proof
  have "Dim1 (ToContiguous junk x) = ElemStride0 (ToContiguous junk x)"
    by (simp add: ToContiguous_fields(1))
  then show "ToContiguous junk (ToContiguous junk x) = ToContiguous junk x"
    unfolding ToContiguous_def[of junk "ToContiguous junk x"] by (simp add: Let_def)
  show "ElemStride0 x = Dim1 x \<longrightarrow> ToContiguous junk x = x"
    by (simp add: ToContiguous_def)
qed

theorem ToContiguous_idempotent_witness:
  "ToContiguous zero_fill (ToContiguous zero_fill example_strided) = ToContiguous zero_fill example_strided \<and>
   ElemStride0 example_contiguous = Dim1 example_contiguous \<and>
   ToContiguous zero_fill example_contiguous = example_contiguous \<and>
   ElemStride0 example_strided \<noteq> Dim1 example_strided"
  using ToContiguous_idempotent[of zero_fill example_strided]
        ToContiguous_idempotent[of zero_fill example_contiguous]
  by (simp add: example_contiguous_def example_strided_def)

lemma ToContiguous_data:
  assumes "ElemStride0 src \<noteq> Dim1 src"
  shows "data (Region2 (ToContiguous junk src)) =
           Eval2 (Context2 src) (Dim0 src) (Dim1 src)
             (\<lambda>i j xs. xs[i * Dim1 src + j := Data2 src (i * ElemStride0 src + j)])
             (map junk [0..<Dim0 src * Dim1 src])"
    and "Offset2 (ToContiguous junk src) = 0"
  using assms
  by (auto simp: ToContiguous_def Let_def NewArray2_def set_data2_def NewRegion_def poke_def)

text \<open>
  Claim C10.  For a non-contiguous source view, \<open>ToContiguous\<close> returns an array in
  the source's context, in a fresh region that it fills exactly, with the source's
  dimensions, with row stride equal to the column count, whose element at every
  position equals the source's.
\<close>

theorem ToContiguous_copies:
  assumes "ElemStride0 src \<noteq> Dim1 src" and "Array2_ok src"
  shows "Context2 (ToContiguous junk src) = Context2 src \<and>
         Dim0 (ToContiguous junk src) = Dim0 src \<and>
         Dim1 (ToContiguous junk src) = Dim1 src \<and>
         ElemStride0 (ToContiguous junk src) = Dim1 (ToContiguous junk src) \<and>
         Offset2 (ToContiguous junk src) = 0 \<and>
         length (data (Region2 (ToContiguous junk src))) = Dim0 src * Dim1 src \<and>
         (\<forall>i<Dim0 src. \<forall>j<Dim1 src. At2 (ToContiguous junk src) i j = At2 src i j)"
proof -
  let ?ans = "ToContiguous junk src"
  let ?n = "Dim1 src"
  have len: "length (data (Region2 ?ans)) = Dim0 src * Dim1 src"
    by (simp add: ToContiguous_data[OF assms(1)] length_Eval2_set)
  have elems: "At2 ?ans i j = At2 src i j" if "i < Dim0 src" "j < ?n" for i j
  proof -
    have "Eval2 (Context2 src) (Dim0 src) ?n
            (\<lambda>i j xs. xs[i * ?n + j := Data2 src (i * ElemStride0 src + j)])
            (map junk [0..<Dim0 src * ?n]) ! (i * ?n + j) = Data2 src (i * ElemStride0 src + j)"
    proof (rule Eval2_set_hit)
      fix a b a' b' assume "b < ?n" "b' < ?n" "a * ?n + b = a' * ?n + b'"
      then show "Data2 src (a * ElemStride0 src + b) = Data2 src (a' * ElemStride0 src + b')"
        using index_inj[of b ?n b' a a'] by simp
    next
      fix a b assume "a < Dim0 src" "b < ?n"
      then show "a * ?n + b < length (map junk [0..<Dim0 src * ?n])"
        using index_bound[of a "Dim0 src" b ?n] by simp
    qed (use that in simp_all)
    then show ?thesis
      by (simp add: At2_def Data2_def[of ?ans] ToContiguous_data[OF assms(1)] ToContiguous_fields)
  qed
  show ?thesis using len elems by (simp add: ToContiguous_fields ToContiguous_data(2)[OF assms(1)])
qed

theorem ToContiguous_copies_witness:
  "ElemStride0 example_strided \<noteq> Dim1 example_strided \<and> Array2_ok example_strided \<and>
   ElemStride0 (ToContiguous zero_fill example_strided) = 2 \<and>
   At2 (ToContiguous zero_fill example_strided) 1 1 = At2 example_strided 1 1 \<and>
   At2 example_strided 1 1 = 15"
proof -
  have h: "ElemStride0 example_strided \<noteq> Dim1 example_strided" "Array2_ok example_strided"
    by (simp_all add: example_strided_def Array2_ok_def)
  have d: "(1::nat) < Dim0 example_strided" "(1::nat) < Dim1 example_strided"
    "Dim1 example_strided = 2"
    by (simp_all add: example_strided_def)
  have "At2 example_strided 1 1 = 15"
    by (simp add: example_strided_def At2_def Data2_def)
  then show ?thesis
    using ToContiguous_copies[OF h, of zero_fill] h d by simp
qed

section \<open>Unimplemented operations\<close>

text \<open>
  Claim C9.  Every call of the flat-array \<open>Append\<close> overload with a positive source
  count, and every call of \<open>And\<close>, ends in the fatal log of a not-implemented message;
  neither ever produces a result.
\<close>

theorem unimplemented_fail:
  "(0 < src_size \<longrightarrow> Append_flat src_size src = Inl (FatalLog ''Not Implemented'')) \<and>
   And a default_value dest = Inl (FatalLog ''Not implemented'') \<and>
   (\<forall>r. Append_flat src_size src \<noteq> Inr r) \<and>
   (\<forall>r. And a default_value dest \<noteq> Inr r)"
  by (simp add: Append_flat_def And_def Let_def)

theorem unimplemented_fail_witness:
  "(0::int) < 2 \<and>
   Append_flat 2 [NewArray1 zero_fill CpuContext 1, NewArray1 zero_fill CpuContext 3]
     = Inl (FatalLog ''Not Implemented'') \<and>
   And (NewArray1 zero_fill CpuContext 1) 0 (NewArray1 zero_fill CpuContext 1)
     = Inl (FatalLog ''Not implemented'')"
  using unimplemented_fail[of 2 "[NewArray1 zero_fill CpuContext 1, NewArray1 zero_fill CpuContext 3]"
          "NewArray1 zero_fill CpuContext 1" 0 "NewArray1 zero_fill CpuContext 1"]
  by simp

section \<open>Checks on counts and lengths\<close>

lemma Range1_result:
  "Range1 junk c dim first_value inc =
     (if dim < 0 then Inl CheckFailed
      else Inr (set_data1 (NewArray1 junk c (nat dim))
                  (fold (\<lambda>i ans_data. ans_data[i := first_value + of_nat i * inc]) [0..<nat dim]
                     (map junk [0..<nat dim]))))"
  by (simp add: Range1_def Let_def Eval_def poke_def NewArray1_def NewRegion_def not_le)

text \<open>
  Claim C8, as the code has it.  \<open>Range\<close> checks \<open>dim >= 0\<close>: a negative length fails the
  check, while the length zero is accepted and gives an array of dimension zero.
  Both \<open>Append\<close> overloads check \<open>num_arrays > 0\<close>: a source count that is zero or
  negative fails the check.
\<close>

theorem counts_checked:
  "(dim < 0 \<longrightarrow> Range1 junk c dim first_value inc = Inl CheckFailed) \<and>
   (0 \<le> dim \<longrightarrow> (\<exists>ans. Range1 junk c dim first_value inc = Inr ans \<and> Dim ans = nat dim)) \<and>
   (num_arrays \<le> 0 \<longrightarrow> Append junk' num_arrays src = Some (Inl CheckFailed)) \<and>
   (src_size \<le> 0 \<longrightarrow> Append_flat src_size src' = Inl CheckFailed)"
  by (simp add: Range1_result Append_def Append_body_def Append_flat_def set_data1_def NewArray1_def)

text \<open>The claim as stated fails for the length zero, which is not positive: \<open>Range\<close> returns the empty array.\<close>

theorem counts_checked_counterexample:
  "Range1 zero_fill CpuContext 0 (5::int) 1 =
     Inr \<lparr>Dim = 0, Offset1 = 0, Region1 = \<lparr>ctx = CpuContext, data = []\<rparr>\<rparr>"
  by (simp add: Range1_result set_data1_def NewArray1_def NewRegion_def)

theorem counts_checked_witness:
  "Range1 zero_fill CpuContext (- 1) (5::int) 1 = Inl CheckFailed \<and>
   Range1 zero_fill CpuContext 3 (5::int) 2 =
     Inr \<lparr>Dim = 3, Offset1 = 0, Region1 = \<lparr>ctx = CpuContext, data = [5, 7, 9]\<rparr>\<rparr> \<and>
   Append zero_fill 0 [] = Some (Inl CheckFailed) \<and>
   Append_flat 0 ([] :: int Array1 list) = Inl CheckFailed"
proof -
  have "Range1 zero_fill CpuContext 3 (5::int) 2 =
     Inr \<lparr>Dim = 3, Offset1 = 0, Region1 = \<lparr>ctx = CpuContext, data = [5, 7, 9]\<rparr>\<rparr>"
    by (simp add: Range1_result set_data1_def NewArray1_def NewRegion_def zero_fill_def upt_rec
          numeral_eq_Suc)
  then show ?thesis
    using counts_checked[of "- 1" zero_fill CpuContext "5::int" 1 0 zero_fill "[]" 0
            "[] :: int Array1 list"]
    by simp
qed

section \<open>MaxPerSublist: the result\<close>

lemma fold_max_Max:
  fixes m :: "'a::linorder"
  shows "fold (\<lambda>x acc. max acc x) xs m = Max (insert m (set xs))"
proof (induction xs arbitrary: m)
  case Nil
  show ?case by simp
next
  case (Cons x xs)
  have "Max (insert (max m x) (set xs)) = Max (insert m (insert x (set xs)))"
  proof (cases "set xs = {}")
    case True
    then show ?thesis by (simp add: max.commute)
  next
    case False
    then show ?thesis by (simp add: max.assoc)
  qed
  with Cons show ?case by simp
qed

lemma MaxPerSublist_row_eq:
  "MaxPerSublist_row values_data row_end j max_val =
     (if j < row_end then row_end else j,
      fold (\<lambda>x acc. max acc x) (map values_data [j..<row_end]) max_val)"
proof (induction values_data row_end j max_val rule: MaxPerSublist_row.induct)
  case (1 values_data row_end j max_val)
  show ?case
  proof (cases "j < row_end")
    case True
    have m: "(if values_data j > max_val then values_data j else max_val) = max max_val (values_data j)"
      by (auto simp: max_def)
    have "[j..<row_end] = j # [j + 1..<row_end]" using True by (simp add: upt_rec)
    then show ?thesis
      using True "1.IH"[OF True refl] by (subst MaxPerSublist_row.simps) (simp add: Let_def m)
  next
    case False
    then show ?thesis by (subst MaxPerSublist_row.simps) simp
  qed
qed

lemma MaxPerSublist_cpu_loop:
  assumes "sorted rs" "k < length rs"
  shows "fold (\<lambda>i (j, output_data).
                 case MaxPerSublist_row v (rs ! Suc i) j d of
                   (j, max_val) \<Rightarrow> (j, output_data[off + i := max_val]))
           [0..<k] (rs ! 0, out0) =
         (rs ! k,
          fold (\<lambda>i out. out[off + i := fold (\<lambda>x acc. max acc x) (map v [rs ! i..<rs ! Suc i]) d])
            [0..<k] out0)"
  using assms(2)
proof (induction k)
  case 0
  show ?case by simp
next
  case (Suc k)
  have le: "rs ! k \<le> rs ! Suc k"
    using assms(1) Suc.prems by (simp add: sorted_iff_nth_Suc)
  have IH: "fold (\<lambda>i (j, output_data).
                 case MaxPerSublist_row v (rs ! Suc i) j d of
                   (j, max_val) \<Rightarrow> (j, output_data[off + i := max_val]))
           [0..<k] (rs ! 0, out0) =
         (rs ! k,
          fold (\<lambda>i out. out[off + i := fold (\<lambda>x acc. max acc x) (map v [rs ! i..<rs ! Suc i]) d])
            [0..<k] out0)"
    using Suc by simp
  have row: "MaxPerSublist_row v (rs ! Suc k) (rs ! k) d =
               (rs ! Suc k, fold (\<lambda>x acc. max acc x) (map v [rs ! k..<rs ! Suc k]) d)"
    using le by (simp add: MaxPerSublist_row_eq)
  show ?case
    by (simp add: IH row)
qed

lemma DeviceSegmentedReduce_MaxOp:
  "DeviceSegmentedReduce v off n b e MaxOp d out0 =
     fold (\<lambda>i out. out[off + i := fold (\<lambda>x acc. max acc x) (map v [b i..<e i]) d])
       [0..<n] out0"
proof -
  have "MaxOp = (max :: 'a \<Rightarrow> 'a \<Rightarrow> 'a)"
    by (intro ext) (auto simp: MaxOp_def max_def)
  then show ?thesis
    by (simp add: DeviceSegmentedReduce_def fold_map comp_def)
qed

lemma fold_set_nth:
  assumes "off + n \<le> length xs" "i < n"
  shows "fold (\<lambda>i xs. xs[off + i := val i]) [0..<n] xs ! (off + i) = val i"
    and "length (fold (\<lambda>i xs. xs[off + i := val i]) [0..<n] xs) = length xs"
proof -
  have eq: "fold (\<lambda>i xs. xs[off + i := val i]) [0..<n] xs =
            writes (\<lambda>i. True) (\<lambda>i. off + i) val [0..<n] xs"
    by (simp add: writes_def)
  show "fold (\<lambda>i xs. xs[off + i := val i]) [0..<n] xs ! (off + i) = val i"
    unfolding eq by (rule writes_hit) (use assms in auto)
  show "length (fold (\<lambda>i xs. xs[off + i := val i]) [0..<n] xs) = length xs"
    unfolding eq by (rule length_writes)
qed

lemma MaxPerSublist_data:
  assumes "length (RowSplitsList (shape src)) = 1"
      and "sorted (RowSplits (shape src) 1)" and "RowSplits (shape src) 1 \<noteq> []"
      and "Dim max_values = length (RowSplits (shape src) 1) - 1"
      and "IsCompatible (ShapeContext (shape src)) (Context1 max_values)"
  shows "MaxPerSublist src default_value max_values =
           Inr (set_data1 max_values
                  (fold (\<lambda>i out. out[Offset1 max_values + i :=
                                       fold (\<lambda>x acc. max acc x) (RowElems src i) default_value])
                     [0..<Dim max_values] (data (Region1 max_values))))"
proof -
  let ?rs = "RowSplits (shape src) 1"
  have k: "Dim max_values < length ?rs" using assms(3,4) by (cases ?rs) simp_all
  have d: "GetDeviceType c = kCpu \<or> GetDeviceType c = kCuda" for c
    by (cases c) simp_all
  show ?thesis
    using assms d[of "ShapeContext (shape src)"]
    using MaxPerSublist_cpu_loop[OF assms(2) k, where v = "Data1 (values_of src)"
            and d = default_value and off = "Offset1 max_values"
            and ?out0.0 = "data (Region1 max_values)"]
    by (auto simp: MaxPerSublist_def NumAxes_def ShapeDim0_def Let_def RowElems_def poke_def
          DeviceSegmentedReduce_MaxOp)
qed

text \<open>
  Claim C4, as the code has it.  For a two-axis ragged array and any default value,
  on the host and on the accelerator alike, \<open>MaxPerSublist\<close> writes for every row
  the larger of the default value and the row's elements.  So an empty row gets
  exactly the default value, and a non-empty row gets its true maximum when that
  maximum is not below the default value.
\<close>

theorem MaxPerSublist_result:
  assumes "Ragged2_ok src"
      and "Dim max_values = length (RowSplits (shape src) 1) - 1"
      and "Array1_ok max_values"
      and "IsCompatible (ShapeContext (shape src)) (Context1 max_values)"
  shows "\<exists>out. MaxPerSublist src default_value max_values = Inr out \<and>
           Dim out = Dim max_values \<and>
           (\<forall>i<Dim max_values.
              Data1 out i = Max (insert default_value (set (RowElems src i))) \<and>
              (RowElems src i = [] \<longrightarrow> Data1 out i = default_value) \<and>
              (RowElems src i \<noteq> [] \<and> default_value \<le> Max (set (RowElems src i)) \<longrightarrow>
                 Data1 out i = Max (set (RowElems src i))))"
proof -
  let ?val = "\<lambda>i. fold (\<lambda>x acc. max acc x) (RowElems src i) default_value"
  let ?mem = "fold (\<lambda>i out. out[Offset1 max_values + i := ?val i]) [0..<Dim max_values]
                (data (Region1 max_values))"
  let ?out = "set_data1 max_values ?mem"
  have res: "MaxPerSublist src default_value max_values = Inr ?out"
    using assms by (intro MaxPerSublist_data) (simp_all add: Ragged2_ok_def)
  have inb: "Offset1 max_values + Dim max_values \<le> length (data (Region1 max_values))"
    using assms(3) by (simp add: Array1_ok_def)
  have elem: "Data1 ?out i = Max (insert default_value (set (RowElems src i)))"
    if "i < Dim max_values" for i
    using fold_set_nth(1)[OF inb that, of ?val]
    by (simp add: Data1_def set_data1_def fold_max_Max)
  have m: "Max (insert default_value (set xs)) = Max (set xs)"
    if "xs \<noteq> []" "default_value \<le> Max (set xs)" for xs
    using that by (simp add: max_def)
  have "Dim ?out = Dim max_values" by (simp add: set_data1_def)
  with res elem m show ?thesis by auto
qed

lemma example_ragged_rows:
  "RowElems (example_ragged c) 0 = [1, 2]" "RowElems (example_ragged c) 1 = []"
  "RowElems (example_ragged c) (Suc 0) = []"
  by (simp_all add: RowElems_def example_ragged_def RowSplits_def Data1_def upt_rec)

lemma example_ragged_ok: "Ragged2_ok (example_ragged c)"
  by (simp add: Ragged2_ok_def example_ragged_def RowSplits_def Array1_ok_def)

text \<open>
  The claim as stated fails for a non-empty row whose elements are all below the
  default value: the row \<open>[1, 2]\<close> with default value 5 gets 5, not its maximum 2.
\<close>

theorem MaxPerSublist_result_counterexample:
  "RowElems (example_ragged CpuContext) 0 = [1, 2] \<and>
   MaxPerSublist (example_ragged CpuContext) 5 (NewArray1 zero_fill CpuContext 2) =
     Inr \<lparr>Dim = 2, Offset1 = 0, Region1 = \<lparr>ctx = CpuContext, data = [5, 5]\<rparr>\<rparr>"
proof -
  let ?mv = "NewArray1 zero_fill CpuContext 2"
  have "MaxPerSublist (example_ragged CpuContext) 5 ?mv =
          Inr (set_data1 ?mv
                 (fold (\<lambda>i out. out[Offset1 ?mv + i :=
                                      fold (\<lambda>x acc. max acc x) (RowElems (example_ragged CpuContext) i) 5])
                    [0..<Dim ?mv] (data (Region1 ?mv))))"
    by (rule MaxPerSublist_data)
       (simp_all add: example_ragged_def RowSplits_def NewArray1_def NewRegion_def
          IsCompatible_def Context1_def)
  moreover have "Dim ?mv = 2" "[0..<2] = [0, Suc 0]" "Offset1 ?mv = 0"
    "data (Region1 ?mv) = [0, 0]"
    by (simp_all add: NewArray1_def NewRegion_def upt_rec zero_fill_def numeral_eq_Suc)
  ultimately show ?thesis
    by (simp add: example_ragged_rows set_data1_def NewArray1_def NewRegion_def)
qed

theorem MaxPerSublist_result_witness:
  "Ragged2_ok (example_ragged CpuContext) \<and> Ragged2_ok (example_ragged (CudaContext 0)) \<and>
   (\<exists>out. MaxPerSublist (example_ragged CpuContext) 0 (NewArray1 zero_fill CpuContext 2) = Inr out \<and>
          Data1 out 0 = 2 \<and> Data1 out 1 = 0) \<and>
   (\<exists>out. MaxPerSublist (example_ragged (CudaContext 0)) 0 (NewArray1 zero_fill (CudaContext 0) 2)
            = Inr out \<and>
          Data1 out 0 = 2 \<and> Data1 out 1 = 0)"
proof -
  have inst: "\<exists>out. MaxPerSublist (example_ragged c) 0 (NewArray1 zero_fill c 2) = Inr out \<and>
          Data1 out 0 = 2 \<and> Data1 out 1 = 0" for c
  proof -
    have d: "Dim (NewArray1 zero_fill c 2) = length (RowSplits (shape (example_ragged c)) 1) - 1"
      by (simp add: NewArray1_def example_ragged_def RowSplits_def)
    have a: "Array1_ok (NewArray1 zero_fill c 2)"
      by (simp add: Array1_ok_def NewArray1_def NewRegion_def)
    have k: "IsCompatible (ShapeContext (shape (example_ragged c))) (Context1 (NewArray1 zero_fill c 2))"
      by (simp add: IsCompatible_def Context1_def NewArray1_def NewRegion_def example_ragged_def)
    obtain out where o: "MaxPerSublist (example_ragged c) 0 (NewArray1 zero_fill c 2) = Inr out"
      and e: "\<forall>i<Dim (NewArray1 zero_fill c 2).
                Data1 out i = Max (insert 0 (set (RowElems (example_ragged c) i)))"
      using MaxPerSublist_result[OF example_ragged_ok d a k, of 0] by blast
    have "Dim (NewArray1 zero_fill c 2) = 2" by (simp add: NewArray1_def)
    with e have "Data1 out 0 = 2" "Data1 out 1 = 0"
      by (simp_all add: example_ragged_rows)
    with o show ?thesis by blast
  qed
  show ?thesis using inst example_ragged_ok by blast
qed

section \<open>RandUniformArray1: equal bounds\<close>

text \<open>
  Claim C7 at \<open>min_value = max_value = 5\<close>.  The branch for equal bounds stores the
  constant 0 in every element, whatever the bounds are: the returned array holds
  zeros, which do not lie in the interval from 5 to 5.
\<close>

theorem RandUniformArray1_equal_bounds:
  "RandUniformArray1 junk rand RAND_MAX c 2 5 5 =
     Inr \<lparr>Dim = 2, Offset1 = 0, Region1 = \<lparr>ctx = c, data = [0, 0]\<rparr>\<rparr>"
  by (simp add: RandUniformArray1_def Let_def NewArray1_def NewRegion_def poke_def To_def
        set_data1_def Elems1_def Data1_def upt_rec numeral_eq_Suc)

section \<open>ExclusiveSum: rows\<close>

lemma ExclusiveSum1D_Suc:
  "ExclusiveSum1D c (Suc n) src dest mem =
     (ExclusiveSum1D c n src dest mem)
       [dest + n := (if n = 0 then 0 else ExclusiveSum1D c n src dest mem ! (dest + (n - 1)) + src (n - 1))]"
  by (simp add: ExclusiveSum1D_def)

lemma length_ExclusiveSum1D: "length (ExclusiveSum1D c n src dest mem) = length mem"
  by (induction n) (simp_all add: ExclusiveSum1D_Suc, simp add: ExclusiveSum1D_def)

lemma ExclusiveSum1D_other:
  "k < dest \<or> dest + n \<le> k \<Longrightarrow> ExclusiveSum1D c n src dest mem ! k = mem ! k"
proof (induction n)
  case 0
  show ?case by (simp add: ExclusiveSum1D_def)
next
  case (Suc n)
  then have "ExclusiveSum1D c n src dest mem ! k = mem ! k" "dest + n \<noteq> k" by auto
  then show ?case by (simp add: ExclusiveSum1D_Suc)
qed

lemma ExclusiveSum1D_nth:
  "dest + n \<le> length mem \<Longrightarrow> k < n \<Longrightarrow>
     ExclusiveSum1D c n src dest mem ! (dest + k) = sum_list (map src [0..<k])"
proof (induction n arbitrary: k)
  case 0
  then show ?case by simp
next
  case (Suc n)
  let ?r = "ExclusiveSum1D c n src dest mem"
  have b: "dest + n \<le> length mem" using Suc.prems by simp
  show ?case
  proof (cases "k = n")
    case False
    then have "k < n" using Suc.prems by simp
    then show ?thesis using Suc.IH[OF b] False by (simp add: ExclusiveSum1D_Suc)
  next
    case True
    have len: "dest + n < length ?r" using Suc.prems by (simp add: length_ExclusiveSum1D)
    show ?thesis
    proof (cases n)
      case 0
      then show ?thesis using True len by (simp add: ExclusiveSum1D_Suc)
    next
      case (Suc m)
      have "?r ! (dest + m) = sum_list (map src [0..<m])"
        using Suc.IH[OF b, of m] Suc by simp
      then show ?thesis using True len Suc by (simp add: ExclusiveSum1D_Suc)
    qed
  qed
qed


lemma row_start_mono:
  fixes i r stride k cols :: nat
  assumes "i < r" "k < cols" "cols \<le> stride"
  shows "i * stride + k < r * stride"
proof -
  have "i * stride + k < i * stride + stride" using assms by simp
  also have "\<dots> = Suc i * stride" by simp
  also have "\<dots> \<le> r * stride" using assms(1) by (intro mult_le_mono1) simp
  finally show ?thesis .
qed

lemma Array2_ok_row_bound:
  assumes "Array2_ok a" "i < Dim0 a"
  shows "Offset2 a + i * ElemStride0 a + Dim1 a \<le> length (data (Region2 a))"
proof -
  have "i \<le> Dim0 a - 1" using assms(2) by simp
  then have "i * ElemStride0 a \<le> (Dim0 a - 1) * ElemStride0 a" by (rule mult_le_mono1)
  moreover have "Offset2 a + (Dim0 a - 1) * ElemStride0 a + Dim1 a \<le> length (data (Region2 a))"
    using assms by (auto simp: Array2_ok_def)
  ultimately show ?thesis by linarith
qed

lemma Array2_ok_index_bound:
  assumes "Array2_ok a" "i < Dim0 a" "j < Dim1 a"
  shows "Offset2 a + (i * ElemStride0 a + j) < length (data (Region2 a))"
  using Array2_ok_row_bound[OF assms(1,2)] assms(3) by simp

lemma rows_loop:
  assumes "cols \<le> stride"
      and "\<And>i. i < r \<Longrightarrow> off + i * stride + cols \<le> length mem"
  shows "length (fold (\<lambda>i mem. ExclusiveSum1D c cols (src i) (off + i * stride) mem) [0..<r] mem)
           = length mem \<and>
         (\<forall>i<r. \<forall>k<cols.
            fold (\<lambda>i mem. ExclusiveSum1D c cols (src i) (off + i * stride) mem) [0..<r] mem
              ! (off + i * stride + k) = sum_list (map (src i) [0..<k]))"
  using assms(2)
proof (induction r)
  case 0
  show ?case by simp
next
  case (Suc r)
  let ?f = "\<lambda>i mem. ExclusiveSum1D c cols (src i) (off + i * stride) mem"
  let ?m = "fold ?f [0..<r] mem"
  have IH: "length ?m = length mem"
    "\<And>i k. i < r \<Longrightarrow> k < cols \<Longrightarrow> ?m ! (off + i * stride + k) = sum_list (map (src i) [0..<k])"
    using Suc.IH Suc.prems by simp_all
  have step: "fold ?f [0..<Suc r] mem = ExclusiveSum1D c cols (src r) (off + r * stride) ?m"
    by simp
  have b: "off + r * stride + cols \<le> length ?m" using Suc.prems[of r] IH(1) by simp
  have "fold ?f [0..<Suc r] mem ! (off + i * stride + k) = sum_list (map (src i) [0..<k])"
    if "i < Suc r" "k < cols" for i k
  proof (cases "i = r")
    case True
    then show ?thesis
      unfolding step using ExclusiveSum1D_nth[OF b that(2), of c "src r"] by (simp add: add.assoc)
  next
    case False
    then have ir: "i < r" using that by simp
    have "off + i * stride + k < off + r * stride"
      using row_start_mono[OF ir that(2) assms(1)] by simp
    then have "ExclusiveSum1D c cols (src r) (off + r * stride) ?m ! (off + i * stride + k)
                 = ?m ! (off + i * stride + k)"
      by (intro ExclusiveSum1D_other) simp
    then show ?thesis unfolding step using IH(2)[OF ir that(2)] by simp
  qed
  moreover have "length (fold ?f [0..<Suc r] mem) = length mem"
    unfolding step by (simp add: length_ExclusiveSum1D IH(1))
  ultimately show ?case by blast
qed

lemma ExclusiveSumPerRow_fields:
  "Dim0 (ExclusiveSumPerRow src dest) = Dim0 dest"
  "Dim1 (ExclusiveSumPerRow src dest) = Dim1 dest"
  "ElemStride0 (ExclusiveSumPerRow src dest) = ElemStride0 dest"
  "Offset2 (ExclusiveSumPerRow src dest) = Offset2 dest"
  "Context2 (ExclusiveSumPerRow src dest) = Context2 dest"
  by (simp_all add: ExclusiveSumPerRow_def Let_def set_data2_def Context2_def)

lemma ExclusiveSumPerRow_elems:
  assumes "Array2_ok dest" "i < Dim0 dest" "k < Dim1 dest"
  shows "At2 (ExclusiveSumPerRow src dest) i k = sum_list (map (At2 src i) [0..<k])"
    and "length (data (Region2 (ExclusiveSumPerRow src dest))) = length (data (Region2 dest))"
proof -
  let ?c = "Context2 src"
  let ?f = "\<lambda>i mem. ExclusiveSum1D ?c (Dim1 dest) (Row src i) (Offset2 dest + i * ElemStride0 dest) mem"
  have d: "data (Region2 (ExclusiveSumPerRow src dest)) = fold ?f [0..<Dim0 dest] (data (Region2 dest))"
    by (simp add: ExclusiveSumPerRow_def Let_def set_data2_def)
  have le: "Dim1 dest \<le> ElemStride0 dest" using assms(1) by (simp add: Array2_ok_def)
  have R: "length (fold ?f [0..<Dim0 dest] (data (Region2 dest))) = length (data (Region2 dest)) \<and>
         (\<forall>i<Dim0 dest. \<forall>k<Dim1 dest.
            fold ?f [0..<Dim0 dest] (data (Region2 dest))
              ! (Offset2 dest + i * ElemStride0 dest + k) = sum_list (map (Row src i) [0..<k]))"
    by (rule rows_loop[OF le]) (rule Array2_ok_row_bound[OF assms(1)])
  have "Row src i = At2 src i" by (intro ext) (simp add: Row_def At2_def)
  then show "At2 (ExclusiveSumPerRow src dest) i k = sum_list (map (At2 src i) [0..<k])"
    using R assms(2,3)
    by (simp add: At2_def Data2_def d ExclusiveSumPerRow_fields add.assoc)
  show "length (data (Region2 (ExclusiveSumPerRow src dest))) = length (data (Region2 dest))"
    using R by (simp add: d)
qed

lemma ExclusiveSumDeref_result:
  assumes "IsCompatible (Context1 src) (Context1 dest)"
      and "Dim dest = Dim src \<or> Dim dest = Dim src + 1"
      and "Dim dest = Dim src + 1 \<longrightarrow> Offset1 src + Dim dest \<le> length (data (Region1 src))"
      and "Array1_ok dest"
  shows "\<exists>out. ExclusiveSumDeref deref src dest = Inr out \<and> Dim out = Dim dest \<and>
           (\<forall>k<Dim dest. Data1 out k = sum_list (map (\<lambda>i. deref (Data1 src i)) [0..<k]))"
proof -
  let ?mem = "ExclusiveSum1D (Context1 src) (Dim dest) (\<lambda>i. deref (Data1 src i)) (Offset1 dest)
                (data (Region1 dest))"
  have "ExclusiveSumDeref deref src dest = Inr (set_data1 dest ?mem)"
    using assms(1,2,3) by (auto simp: ExclusiveSumDeref_def Let_def)
  moreover have "Data1 (set_data1 dest ?mem) k = sum_list (map (\<lambda>i. deref (Data1 src i)) [0..<k])"
    if "k < Dim dest" for k
    using ExclusiveSum1D_nth[of "Offset1 dest" "Dim dest" "data (Region1 dest)" k] assms(4) that
    by (simp add: Data1_def set_data1_def Array1_ok_def)
  moreover have "Dim (set_data1 dest ?mem) = Dim dest" by (simp add: set_data1_def)
  ultimately show ?thesis by blast
qed

text \<open>
  Claim C1.  \<open>ExclusiveSumPerRow\<close> runs the 1-D exclusive sum on every row: entry \<open>k\<close>
  of a destination row is the sum of the first \<open>k\<close> elements of the source row, so
  entry 0 is 0, and when the destination has one more column than the source its last
  entry is the sum of the whole source row.  Sums are taken in the element type.  The
  row \<open>[1, 2, 3, 4]\<close> with a destination of five elements gives \<open>[0, 1, 3, 6, 10]\<close>.
\<close>

theorem ExclusiveSumPerRow_result:
  assumes "Array2_ok dest"
      and "Dim0 dest = Dim0 src"
      and "Dim1 dest = Dim1 src \<or> Dim1 dest = Dim1 src + 1"
  shows "(\<forall>i<Dim0 dest. \<forall>k<Dim1 dest.
            At2 (ExclusiveSumPerRow src dest) i k = sum_list (map (At2 src i) [0..<k])) \<and>
         (\<forall>i<Dim0 dest. 0 < Dim1 dest \<longrightarrow> At2 (ExclusiveSumPerRow src dest) i 0 = 0) \<and>
         (Dim1 dest = Dim1 src + 1 \<longrightarrow>
            (\<forall>i<Dim0 dest. At2 (ExclusiveSumPerRow src dest) i (Dim1 src)
                             = sum_list (map (At2 src i) [0..<Dim1 src])))"
  using ExclusiveSumPerRow_elems(1)[OF assms(1), of _ _ src] by simp

theorem ExclusiveSumPerRow_result_witness:
  "Array2_ok example_sum_dest \<and> Dim0 example_sum_dest = Dim0 example_sum_src \<and>
   Dim1 example_sum_dest = Dim1 example_sum_src + 1 \<and>
   map (At2 example_sum_src 0) [0..<4] = [1, 2, 3, 4] \<and>
   map (At2 (ExclusiveSumPerRow example_sum_src example_sum_dest) 0) [0..<5] = [0, 1, 3, 6, 10]"
proof -
  have h: "Array2_ok example_sum_dest" "Dim0 example_sum_dest = Dim0 example_sum_src"
    "Dim1 example_sum_dest = Dim1 example_sum_src \<or> Dim1 example_sum_dest = Dim1 example_sum_src + 1"
    by (simp_all add: Array2_ok_def example_sum_dest_def example_sum_src_def)
  have d: "Dim0 example_sum_dest = 1" "Dim1 example_sum_dest = 5"
    by (simp_all add: example_sum_dest_def)
  have s: "At2 example_sum_src 0 0 = 1" "At2 example_sum_src 0 1 = 2" "At2 example_sum_src 0 2 = 3"
    "At2 example_sum_src 0 3 = 4"
    by (simp_all add: At2_def Data2_def example_sum_src_def)
  have u: "[0..<5] = [0, 1, 2, 3, 4]" "[0..<4] = [0, 1, 2, 3]" "[0..<3] = [0, 1, 2]"
    "[0..<2] = [0, 1]" "[0..<1] = [0]"
    by (simp_all add: upt_rec)
  have "\<forall>k<5. At2 (ExclusiveSumPerRow example_sum_src example_sum_dest) 0 k
                = sum_list (map (At2 example_sum_src 0) [0..<k])"
    using ExclusiveSumPerRow_result[OF h] d by simp
  then have "At2 (ExclusiveSumPerRow example_sum_src example_sum_dest) 0 k
                = sum_list (map (At2 example_sum_src 0) [0..<k])" if "k < 5" for k
    using that by blast
  from this[of 0] this[of 1] this[of 2] this[of 3] this[of 4]
  have "map (At2 (ExclusiveSumPerRow example_sum_src example_sum_dest) 0) [0, 1, 2, 3, 4]
          = [0, 1, 3, 6, 10]"
    using s u by simp
  then show ?thesis using h(1,2) s by (simp add: u example_sum_dest_def example_sum_src_def)
qed

section \<open>Transpose: the kernel\<close>

lemma fold2_writes:
  "fold (\<lambda>a. fold (\<lambda>b xs. if P a b then xs[idx a b := val a b] else xs) ys) as xs =
     writes (\<lambda>(a, b). P a b) (\<lambda>(a, b). idx a b) (\<lambda>(a, b). val a b) (List.product as ys) xs"
  by (simp add: fold_product writes_def split_def)

lemma writes_cong:
  assumes "\<And>p. p \<in> set ps \<Longrightarrow> P p \<Longrightarrow> val p = val' p"
  shows "writes P idx val ps xs = writes P idx val' ps xs"
  using assms
proof (induction ps rule: rev_induct)
  case Nil
  show ?case by (simp add: writes_def)
next
  case (snoc p ps)
  have "writes P idx val ps xs = writes P idx val' ps xs"
    using snoc.prems by (intro snoc.IH) simp
  moreover have "P p \<Longrightarrow> val p = val' p" using snoc.prems by simp
  ultimately show ?case by (simp add: writes_snoc)
qed

lemma TransposeKernel_steps_eq: "TransposeKernel_steps = [0, 8, 16, 24]"
  by (simp add: TransposeKernel_steps_def kTransTileDim_def kTransBlockRows_def upt_rec)

lemma step_of_row:
  assumes "a < (32::nat)"
  shows "(a div 8) * 8 \<in> set TransposeKernel_steps" "a mod 8 < 8" "a mod 8 + (a div 8) * 8 = a"
proof -
  have "a div 8 < 4" using assms by simp
  then have "a div 8 = 0 \<or> a div 8 = 1 \<or> a div 8 = 2 \<or> a div 8 = 3" by arith
  then show "(a div 8) * 8 \<in> set TransposeKernel_steps"
    by (auto simp: TransposeKernel_steps_eq)
  show "a mod 8 < 8" by simp
  show "a mod 8 + (a div 8) * 8 = a" by simp
qed

lemma step_bound:
  assumes "i \<in> set TransposeKernel_steps" "ty < (8::nat)"
  shows "ty + i < 32"
  using assms by (auto simp: TransposeKernel_steps_eq)

text \<open>The cache of one block after the part before the barrier.\<close>

lemma TransposeKernel_cache:
  assumes "a < 32" "b < 32" "a + by * 32 < rows" "b + bx * 32 < cols"
  shows "fold (TransposeKernel_load rows cols iss input (bx, by))
           (List.product [0..<32] [0..<8]) (map junk [0..<32 * 33]) ! (a * 33 + b)
         = input ((a + by * 32) * iss + (b + bx * 32))"
proof -
  let ?P = "\<lambda>t i. fst t + bx * 32 < cols \<and> (snd t + i) + by * 32 < rows"
  let ?idx = "\<lambda>t i. (snd t + i) * 33 + fst t"
  let ?val = "\<lambda>t i. input (((snd t + i) + by * 32) * iss + (fst t + bx * 32))"
  let ?ps = "List.product (List.product [0..<32] [0..<8]) TransposeKernel_steps"
  have load: "TransposeKernel_load rows cols iss input (bx, by) =
          (\<lambda>t. fold (\<lambda>i xs. if ?P t i then xs[?idx t i := ?val t i] else xs) TransposeKernel_steps)"
    by (intro ext) (simp add: TransposeKernel_load_def Let_def kTransTileDim_def add_ac cong: if_cong)
  have eq: "fold (TransposeKernel_load rows cols iss input (bx, by))
           (List.product [0..<32] [0..<8]) (map junk [0..<32 * 33])
        = writes (\<lambda>(t, i). ?P t i) (\<lambda>(t, i). ?idx t i) (\<lambda>(t, i). ?val t i) ?ps (map junk [0..<32 * 33])"
    unfolding load by (rule fold2_writes)
  let ?q = "((b, a mod 8), (a div 8) * 8)"
  have iq: "(\<lambda>(t, i). ?idx t i) ?q = a * 33 + b"
    by (simp only: prod.case fst_conv snd_conv step_of_row(3)[OF assms(1)])
  have vq: "(\<lambda>(t, i). ?val t i) ?q = input ((a + by * 32) * iss + (b + bx * 32))"
    by (simp only: prod.case fst_conv snd_conv step_of_row(3)[OF assms(1)])
  have "writes (\<lambda>(t, i). ?P t i) (\<lambda>(t, i). ?idx t i) (\<lambda>(t, i). ?val t i) ?ps (map junk [0..<32 * 33])
          ! (\<lambda>(t, i). ?idx t i) ?q = (\<lambda>(t, i). ?val t i) ?q"
  proof (rule writes_hit)
    show "?q \<in> set ?ps" using assms(1,2) step_of_row[OF assms(1)] by simp
    show "case ?q of (t, i) \<Rightarrow> ?P t i"
      using assms(3,4) step_of_row(3)[OF assms(1)] by simp
  next
    fix p q assume pq: "p \<in> set ?ps" "q \<in> set ?ps"
      and e: "(case p of (t, i) \<Rightarrow> ?idx t i) = (case q of (t, i) \<Rightarrow> ?idx t i)"
    obtain tx ty i tx' ty' i' where p: "p = ((tx, ty), i)" and q: "q = ((tx', ty'), i')"
      by (metis surj_pair)
    have "tx < 33" "tx' < 33" using pq p q by auto
    moreover have "(ty + i) * 33 + tx = (ty' + i') * 33 + tx'" using e p q by simp
    ultimately have "ty + i = ty' + i' \<and> tx = tx'" by (rule index_inj)
    then show "(case p of (t, i) \<Rightarrow> ?val t i) = (case q of (t, i) \<Rightarrow> ?val t i)"
      using p q by simp
  next
    fix p assume "p \<in> set ?ps"
    moreover obtain tx ty i where p: "p = ((tx, ty), i)" by (metis surj_pair)
    ultimately have "ty + i < 32" "tx < 33" using step_bound[of i ty] by auto
    then have "(ty + i) * 33 + tx < 32 * 33" by (rule index_bound)
    then show "(case p of (t, i) \<Rightarrow> ?idx t i) < length (map junk [0..<32 * 33])"
      using p by simp
  qed
  then show ?thesis
    unfolding eq iq vq .
qed

lemma TransposeKernel_block_writes:
  "TransposeKernel_block junk (kTransTileDim, kTransBlockRows) rows cols iss os input out b mem =
     writes (store_P rows cols b) (store_idx os out b) (store_val iss input b)
       (List.product (List.product [0..<32] [0..<8]) TransposeKernel_steps) mem"
proof -
  obtain bx "by" where b: "b = (bx, by)" by (metis surj_pair)
  let ?ts = "List.product [0..<32] [0..<8]"
  let ?ps = "List.product ?ts TransposeKernel_steps"
  let ?cache = "fold (TransposeKernel_load rows cols iss input (bx, by)) ?ts (map junk [0..<32 * 33])"
  let ?P = "\<lambda>t i. fst t + by * 32 < rows \<and> (snd t + i) + bx * 32 < cols"
  let ?idx = "\<lambda>t i. out + (((snd t + i) + bx * 32) * os + (fst t + by * 32))"
  let ?valc = "\<lambda>t i. ?cache ! (fst t * 33 + (snd t + i))"
  have store: "TransposeKernel_store rows cols os out ?cache (bx, by) =
          (\<lambda>t. fold (\<lambda>i xs. if ?P t i then xs[?idx t i := ?valc t i] else xs) TransposeKernel_steps)"
    by (intro ext) (simp add: TransposeKernel_store_def Let_def kTransTileDim_def add_ac cong: if_cong)
  have "TransposeKernel_block junk (kTransTileDim, kTransBlockRows) rows cols iss os input out b mem
          = fold (TransposeKernel_store rows cols os out ?cache (bx, by)) ?ts mem"
    by (simp add: TransposeKernel_block_def b Let_def kTransTileDim_def kTransBlockRows_def)
  also have "\<dots> = writes (\<lambda>(t, i). ?P t i) (\<lambda>(t, i). ?idx t i) (\<lambda>(t, i). ?valc t i) ?ps mem"
    unfolding store by (rule fold2_writes)
  also have "\<dots> = writes (\<lambda>(t, i). ?P t i) (\<lambda>(t, i). ?idx t i) (store_val iss input b) ?ps mem"
  proof (rule writes_cong)
    fix p assume m: "p \<in> set ?ps" and P: "case p of (t, i) \<Rightarrow> ?P t i"
    obtain tx ty i where p: "p = ((tx, ty), i)" by (metis surj_pair)
    have "tx < 32" "ty + i < 32" using m p step_bound[of i ty] by auto
    moreover have "tx + by * 32 < rows" "(ty + i) + bx * 32 < cols" using P p by simp_all
    ultimately have "?cache ! (tx * 33 + (ty + i)) = input ((tx + by * 32) * iss + ((ty + i) + bx * 32))"
      by (rule TransposeKernel_cache)
    then show "(case p of (t, i) \<Rightarrow> ?valc t i) = store_val iss input b p"
      by (simp add: p b store_val_def)
  qed
  also have "(\<lambda>(t, i). ?P t i) = store_P rows cols b"
    by (intro ext) (simp add: store_P_def b split_def)
  also have "(\<lambda>(t, i). ?idx t i) = store_idx os out b"
    by (intro ext) (simp add: store_idx_def b split_def)
  finally show ?thesis .
qed

lemma TransposeKernel_writes:
  "TransposeKernel junk (gx, gy) (kTransTileDim, kTransBlockRows) rows cols iss os input out mem =
     writes (\<lambda>(b, p). store_P rows cols b p) (\<lambda>(b, p). store_idx os out b p)
       (\<lambda>(b, p). store_val iss input b p)
       (List.product (List.product [0..<gx] [0..<gy])
          (List.product (List.product [0..<32] [0..<8]) TransposeKernel_steps)) mem"
proof -
  have "TransposeKernel_block junk (kTransTileDim, kTransBlockRows) rows cols iss os input out =
          (\<lambda>b. fold (\<lambda>p xs. if store_P rows cols b p
                               then xs[store_idx os out b p := store_val iss input b p] else xs)
                  (List.product (List.product [0..<32] [0..<8]) TransposeKernel_steps))"
    by (intro ext) (simp add: TransposeKernel_block_writes writes_def)
  then show ?thesis
    by (simp add: TransposeKernel_def fold2_writes)
qed

lemma NumBlocks_covers: "c < n \<Longrightarrow> c div 32 < NumBlocks n 32"
  by (simp add: NumBlocks_def)

lemma TransposeKernel_result:
  assumes le: "rows \<le> os"
      and bound: "\<And>r c. r < rows \<Longrightarrow> c < cols \<Longrightarrow> out + (c * os + r) < length mem"
  shows "length (TransposeKernel junk (NumBlocks cols kTransTileDim, NumBlocks rows kTransTileDim)
                   (kTransTileDim, kTransBlockRows) rows cols iss os input out mem) = length mem"
    and "r < rows \<Longrightarrow> c < cols \<Longrightarrow>
         TransposeKernel junk (NumBlocks cols kTransTileDim, NumBlocks rows kTransTileDim)
           (kTransTileDim, kTransBlockRows) rows cols iss os input out mem ! (out + (c * os + r))
         = input (r * iss + c)"
proof -
  let ?gx = "NumBlocks cols kTransTileDim" and ?gy = "NumBlocks rows kTransTileDim"
  let ?ps = "List.product (List.product [0..<?gx] [0..<?gy])
               (List.product (List.product [0..<32] [0..<8]) TransposeKernel_steps)"
  let ?P = "\<lambda>(b, p). store_P rows cols b p"
  let ?idx = "\<lambda>(b, p). store_idx os out b p"
  let ?val = "\<lambda>(b, p). store_val iss input b p"
  show "length (TransposeKernel junk (?gx, ?gy) (kTransTileDim, kTransBlockRows) rows cols iss os
                  input out mem) = length mem"
    by (simp add: TransposeKernel_writes length_writes)
  assume rc: "r < rows" "c < cols"
  let ?b = "c mod 32"
  let ?q = "((c div 32, r div 32), ((r mod 32, ?b mod 8), (?b div 8) * 8))"
  have b32: "?b < 32" by simp
  have cq: "(?b mod 8 + (?b div 8) * 8) + (c div 32) * 32 = c" by simp
  have rq: "r mod 32 + (r div 32) * 32 = r" by simp
  have iq: "?idx ?q = out + (c * os + r)"
    by (simp only: prod.case store_idx_def fst_conv snd_conv cq rq)
  have vq: "?val ?q = input (r * iss + c)"
    by (simp only: prod.case store_val_def fst_conv snd_conv cq rq)
  have "writes ?P ?idx ?val ?ps mem ! ?idx ?q = ?val ?q"
  proof (rule writes_hit)
    show "?q \<in> set ?ps"
      using rc NumBlocks_covers[of c cols] NumBlocks_covers[of r rows] step_of_row(1,2)[OF b32]
      by (simp add: kTransTileDim_def)
    show "?P ?q"
      by (simp only: prod.case store_P_def fst_conv snd_conv cq rq rc)
  next
    fix p q assume P: "?P p" "?P q" and e: "?idx p = ?idx q"
    obtain b t i b' t' i' where p: "p = (b, (t, i))" and q: "q = (b', (t', i'))"
      by (metis surj_pair)
    let ?x = "fst t + snd b * 32" and ?y = "(snd t + i) + fst b * 32"
    let ?x' = "fst t' + snd b' * 32" and ?y' = "(snd t' + i') + fst b' * 32"
    have "?x < os" "?x' < os" using P le by (simp_all add: p q store_P_def)
    moreover have "?y * os + ?x = ?y' * os + ?x'" using e by (simp add: p q store_idx_def)
    ultimately have "?y = ?y' \<and> ?x = ?x'" by (rule index_inj)
    then show "?val p = ?val q" by (simp add: p q store_val_def)
  next
    fix p assume P: "?P p"
    obtain b t i where p: "p = (b, (t, i))" by (metis surj_pair)
    have "out + (((snd t + i) + fst b * 32) * os + (fst t + snd b * 32)) < length mem"
      using P by (intro bound) (simp_all add: p store_P_def)
    then show "?idx p < length mem" by (simp add: p store_idx_def)
  qed
  then show "TransposeKernel junk (?gx, ?gy) (kTransTileDim, kTransBlockRows) rows cols iss os
               input out mem ! (out + (c * os + r)) = input (r * iss + c)"
    unfolding TransposeKernel_writes iq vq .
qed

section \<open>Transpose: the result\<close>

lemma Transpose_eq:
  assumes "IsCompatible c (Context2 src)" "IsCompatible c (Context2 dest)"
      and "Dim0 src = Dim1 dest" "Dim1 src = Dim0 dest"
  shows "Transpose junk c src dest = Inr (set_data2 dest (Transpose_data junk c src dest))"
proof -
  have "GetDeviceType c = kCpu \<or> GetDeviceType c = kCuda" by (cases c) simp_all
  then show ?thesis
    using assms
    by (auto simp: Transpose_def Transpose_data_def Let_def Eval2_def poke_def)
qed

lemma Transpose_data_props:
  assumes "Dim0 src = Dim1 dest" "Dim1 src = Dim0 dest" "Array2_ok dest"
  shows "length (Transpose_data junk c src dest) = length (data (Region2 dest))"
    and "i < Dim0 dest \<Longrightarrow> j < Dim1 dest \<Longrightarrow>
         Transpose_data junk c src dest ! (Offset2 dest + (i * ElemStride0 dest + j))
           = Data2 src (j * ElemStride0 src + i)"
proof -
  let ?os = "ElemStride0 dest" and ?off = "Offset2 dest" and ?mem = "data (Region2 dest)"
  have le: "Dim0 src \<le> ?os" using assms(1,3) by (simp add: Array2_ok_def)
  have bound: "?off + (a * ?os + b) < length ?mem" if "b < Dim0 src" "a < Dim1 src" for a b
    using Array2_ok_index_bound[OF assms(3), of a b] that assms(1,2) by simp
  show "length (Transpose_data junk c src dest) = length ?mem"
    using TransposeKernel_result(1)[OF le bound]
    by (simp add: Transpose_data_def length_Eval2_set)
  assume ij: "i < Dim0 dest" "j < Dim1 dest"
  show "Transpose_data junk c src dest ! (?off + (i * ?os + j)) = Data2 src (j * ElemStride0 src + i)"
  proof (cases "GetDeviceType c = kCpu")
    case True
    have "Eval2 c (Dim1 src) (Dim0 src)
            (\<lambda>i j xs. xs[?off + (i * ?os + j) := Data2 src (j * ElemStride0 src + i)]) ?mem
            ! (?off + (i * ?os + j)) = Data2 src (j * ElemStride0 src + i)"
    proof (rule Eval2_set_hit)
      fix a b a' b' assume "b < Dim0 src" "b' < Dim0 src"
        and e: "?off + (a * ?os + b) = ?off + (a' * ?os + b')"
      then have "b < ?os" "b' < ?os" using le by simp_all
      moreover have "a * ?os + b = a' * ?os + b'" using e by simp
      ultimately have "a = a' \<and> b = b'" by (rule index_inj)
      then show "Data2 src (b * ElemStride0 src + a) = Data2 src (b' * ElemStride0 src + a')"
        by simp
    next
      fix a b assume "a < Dim1 src" "b < Dim0 src"
      then show "?off + (a * ?os + b) < length ?mem" by (intro bound)
    qed (use ij assms in simp_all)
    then show ?thesis using True by (simp add: Transpose_data_def)
  next
    case False
    have "j < Dim0 src" "i < Dim1 src" using ij assms by simp_all
    then show ?thesis
      using False TransposeKernel_result(2)[OF le bound, where r = j and c = i and junk = junk
              and iss = "ElemStride0 src" and input = "Data2 src"]
      by (simp add: Transpose_data_def)
  qed
qed

lemma Transpose_result:
  assumes "IsCompatible c (Context2 src)" "IsCompatible c (Context2 dest)"
      and "Dim0 src = Dim1 dest" "Dim1 src = Dim0 dest" and "Array2_ok dest"
  shows "\<exists>d. Transpose junk c src dest = Inr d \<and>
           Dim0 d = Dim0 dest \<and> Dim1 d = Dim1 dest \<and> ElemStride0 d = ElemStride0 dest \<and>
           Offset2 d = Offset2 dest \<and> Context2 d = Context2 dest \<and> Array2_ok d \<and>
           (\<forall>i<Dim0 dest. \<forall>j<Dim1 dest. At2 d i j = At2 src j i)"
proof -
  let ?d = "set_data2 dest (Transpose_data junk c src dest)"
  have f: "Dim0 ?d = Dim0 dest" "Dim1 ?d = Dim1 dest" "ElemStride0 ?d = ElemStride0 dest"
    "Offset2 ?d = Offset2 dest" "Context2 ?d = Context2 dest"
    "data (Region2 ?d) = Transpose_data junk c src dest"
    by (simp_all add: set_data2_def Context2_def)
  have ok: "Array2_ok ?d"
    using assms(5) Transpose_data_props(1)[OF assms(3,4,5), of junk c]
    by (simp add: Array2_ok_def f)
  have "At2 ?d i j = At2 src j i" if "i < Dim0 dest" "j < Dim1 dest" for i j
    using Transpose_data_props(2)[OF assms(3,4,5) that, of junk c]
    by (simp add: At2_def Data2_def f)
  then show ?thesis
    using Transpose_eq[OF assms(1-4), of junk] f(1-5) ok by blast
qed

text \<open>
  Claim C3.  For a matrix view \<open>M\<close> with any row stride, on the host and on the
  accelerator alike: transposing \<open>M\<close> into a destination \<open>D\<close> of the transposed
  dimensions succeeds and gives the transposed elements, and transposing that result
  into a view \<open>M'\<close> of the dimensions of \<open>M\<close> gives back the elements of \<open>M\<close>.  The
  destinations are valid views of regions of their own, in contexts compatible with
  the launching context.
\<close>

theorem Transpose_round_trip:
  assumes "IsCompatible c (Context2 M)" "IsCompatible c (Context2 D)" "IsCompatible c (Context2 M')"
      and "Array2_ok M"
      and "Dim0 D = Dim1 M" "Dim1 D = Dim0 M" "Array2_ok D"
      and "Dim0 M' = Dim0 M" "Dim1 M' = Dim1 M" "Array2_ok M'"
  shows "\<exists>D1 M1. Transpose junk c M D = Inr D1 \<and> Transpose junk' c D1 M' = Inr M1 \<and>
           Dim0 M1 = Dim0 M \<and> Dim1 M1 = Dim1 M \<and>
           (\<forall>i<Dim1 M. \<forall>j<Dim0 M. At2 D1 i j = At2 M j i) \<and>
           (\<forall>i<Dim0 M. \<forall>j<Dim1 M. At2 M1 i j = At2 M i j)"
proof -
  obtain D1 where D1: "Transpose junk c M D = Inr D1" "Dim0 D1 = Dim0 D" "Dim1 D1 = Dim1 D"
    "Context2 D1 = Context2 D" "\<forall>i<Dim0 D. \<forall>j<Dim1 D. At2 D1 i j = At2 M j i"
    using Transpose_result[OF assms(1,2), of junk] assms(5,6,7) by auto
  have "\<exists>d. Transpose junk' c D1 M' = Inr d \<and>
           Dim0 d = Dim0 M' \<and> Dim1 d = Dim1 M' \<and> ElemStride0 d = ElemStride0 M' \<and>
           Offset2 d = Offset2 M' \<and> Context2 d = Context2 M' \<and> Array2_ok d \<and>
           (\<forall>i<Dim0 M'. \<forall>j<Dim1 M'. At2 d i j = At2 D1 j i)"
    using assms D1 by (intro Transpose_result) simp_all
  then obtain M1 where M1: "Transpose junk' c D1 M' = Inr M1" "Dim0 M1 = Dim0 M'" "Dim1 M1 = Dim1 M'"
    "\<forall>i<Dim0 M'. \<forall>j<Dim1 M'. At2 M1 i j = At2 D1 j i"
    by blast
  have "\<forall>i<Dim0 M. \<forall>j<Dim1 M. At2 M1 i j = At2 M i j"
    using M1(4) D1(5) assms(5,6,8,9) by simp
  then show ?thesis using D1 M1 assms by auto
qed

theorem Transpose_round_trip_witness:
  "(\<exists>D1 M1. Transpose zero_fill CpuContext (example_matrix CpuContext) (example_transposed CpuContext) = Inr D1 \<and>
      Transpose zero_fill CpuContext D1 (example_back CpuContext) = Inr M1 \<and>
      At2 D1 0 1 = 14 \<and> At2 D1 1 0 = 12 \<and>
      At2 M1 0 0 = 11 \<and> At2 M1 0 1 = 12 \<and> At2 M1 1 0 = 14 \<and> At2 M1 1 1 = 15) \<and>
   (\<exists>D1 M1. Transpose zero_fill (CudaContext 0) (example_matrix (CudaContext 0))
               (example_transposed (CudaContext 0)) = Inr D1 \<and>
      Transpose zero_fill (CudaContext 0) D1 (example_back (CudaContext 0)) = Inr M1 \<and>
      At2 D1 0 1 = 14 \<and> At2 D1 1 0 = 12 \<and>
      At2 M1 0 0 = 11 \<and> At2 M1 0 1 = 12 \<and> At2 M1 1 0 = 14 \<and> At2 M1 1 1 = 15)"
proof -
  have inst: "\<exists>D1 M1. Transpose zero_fill c (example_matrix c) (example_transposed c) = Inr D1 \<and>
      Transpose zero_fill c D1 (example_back c) = Inr M1 \<and>
      At2 D1 0 1 = 14 \<and> At2 D1 1 0 = 12 \<and>
      At2 M1 0 0 = 11 \<and> At2 M1 0 1 = 12 \<and> At2 M1 1 0 = 14 \<and> At2 M1 1 1 = 15" for c
  proof -
    have k: "IsCompatible c (Context2 (example_matrix c))"
      "IsCompatible c (Context2 (example_transposed c))"
      "IsCompatible c (Context2 (example_back c))"
      by (simp_all add: IsCompatible_def Context2_def example_matrix_def example_transposed_def
            example_back_def)
    have ok: "Array2_ok (example_matrix c)" "Array2_ok (example_transposed c)"
      "Array2_ok (example_back c)"
      by (simp_all add: Array2_ok_def example_matrix_def example_transposed_def example_back_def)
    have d: "Dim0 (example_transposed c) = Dim1 (example_matrix c)"
      "Dim1 (example_transposed c) = Dim0 (example_matrix c)"
      "Dim0 (example_back c) = Dim0 (example_matrix c)"
      "Dim1 (example_back c) = Dim1 (example_matrix c)"
      by (simp_all add: example_matrix_def example_transposed_def example_back_def)
    have m: "Dim0 (example_matrix c) = 2" "Dim1 (example_matrix c) = 2"
      "At2 (example_matrix c) 0 0 = 11" "At2 (example_matrix c) 0 1 = 12"
      "At2 (example_matrix c) 1 0 = 14" "At2 (example_matrix c) 1 1 = 15"
      by (simp_all add: example_matrix_def At2_def Data2_def)
    obtain D1 M1 where r: "Transpose zero_fill c (example_matrix c) (example_transposed c) = Inr D1"
      "Transpose zero_fill c D1 (example_back c) = Inr M1"
      "\<forall>i<Dim1 (example_matrix c). \<forall>j<Dim0 (example_matrix c). At2 D1 i j = At2 (example_matrix c) j i"
      "\<forall>i<Dim0 (example_matrix c). \<forall>j<Dim1 (example_matrix c). At2 M1 i j = At2 (example_matrix c) i j"
      using Transpose_round_trip[OF k(1,2,3) ok(1) d(1,2) ok(2) d(3,4) ok(3), of zero_fill zero_fill]
      by blast
    have "At2 D1 0 1 = 14" "At2 D1 1 0 = 12"
      "At2 M1 0 0 = 11" "At2 M1 0 1 = 12" "At2 M1 1 0 = 14" "At2 M1 1 1 = 15"
      using r(3,4) m by simp_all
    with r(1,2) show ?thesis by blast
  qed
  show ?thesis using inst[of CpuContext] inst[of "CudaContext 0"] by blast
qed

section \<open>ExclusiveSum: columns\<close>

lemma column_exclusive_sum_spec_sum:
  "column_exclusive_sum_spec src j k = sum_list (map (\<lambda>r. At2 src r j) [0..<k])"
  by (induction k) simp_all

lemma contiguous_ok:
  "Array2_ok \<lparr>Dim0 = m, Dim1 = n, ElemStride0 = n, Offset2 = 0, Region2 = NewRegion junk c (n * m + e)\<rparr>"
proof (cases m)
  case 0
  then show ?thesis by (simp add: Array2_ok_def)
next
  case (Suc k)
  then show ?thesis by (simp add: Array2_ok_def NewRegion_def)
qed

lemma ExclusiveSumPerRow_ok:
  assumes "Array2_ok dest"
  shows "Array2_ok (ExclusiveSumPerRow src dest)"
proof -
  have "length (data (Region2 (ExclusiveSumPerRow src dest))) = length (data (Region2 dest))"
    by (simp add: ExclusiveSumPerRow_def Let_def set_data2_def)
       (rule conjunct1[OF rows_loop], use assms in \<open>auto simp: Array2_ok_def intro: Array2_ok_row_bound\<close>)
  then show ?thesis using assms by (simp add: Array2_ok_def ExclusiveSumPerRow_fields)
qed


text \<open>
  Claim C5.  Along axis 0 \<open>ExclusiveSum\<close> transposes the source into a fresh buffer
  with one extra trailing element, runs the row algorithm there and transposes the
  result into the destination.  Whenever its checks pass (compatible contexts, equal
  column counts, a destination with as many rows as the source or one more, and in
  the latter case a source region with one more element of room) it returns the
  destination holding, in every column, the exclusive sum down that column as
  defined directly by \<open>column_exclusive_sum_spec\<close>.
\<close>

theorem ExclusiveSum_columns:
  assumes compat: "IsCompatible (Context2 src) (Context2 dest)"
      and d1: "Dim1 dest = Dim1 src"
      and d0: "Dim0 dest = Dim0 src \<or> Dim0 dest = Dim0 src + 1"
      and cap: "Dim0 dest = Dim0 src + 1 \<longrightarrow>
                  Offset2 src + (Dim0 src * Dim1 src + 1) \<le> length (data (Region2 src))"
      and ok: "Array2_ok dest" and oks: "Array2_ok src"
  shows "\<exists>d. ExclusiveSum junk src dest 0 = Inr d \<and>
           Dim0 d = Dim0 dest \<and> Dim1 d = Dim1 dest \<and>
           (\<forall>i<Dim0 dest. \<forall>j<Dim1 dest. At2 d i j = column_exclusive_sum_spec src j i)"
proof -
  let ?c = "Context2 src"
  let ?rows = "Dim0 src" and ?cols = "Dim1 src" and ?dm = "Dim0 dest"
  let ?stz = "\<lparr>Dim0 = ?cols, Dim1 = ?rows, ElemStride0 = ?rows, Offset2 = 0,
               Region2 = NewRegion junk ?c (?rows * ?cols + 1)\<rparr>"
  let ?dtz = "\<lparr>Dim0 = ?cols, Dim1 = ?dm, ElemStride0 = ?dm, Offset2 = 0,
               Region2 = NewRegion junk ?c (?dm * ?cols)\<rparr>"
  have cd: "Context2 dest = ?c" using compat by (simp add: IsCompatible_def)
  have E: "ExclusiveSum junk src dest 0 =
             (case Transpose junk ?c src ?stz of
                Inl e \<Rightarrow> Inl e
              | Inr st \<Rightarrow> Transpose junk ?c (ExclusiveSumPerRow st ?dtz) dest)"
  proof -
    have chk: "int (length (data (Region2 src))) - int (Offset2 src) \<ge> int (?rows * ?cols + 1)"
      if "Dim0 dest = Dim0 src + 1"
    proof -
      have "int (Offset2 src + (?rows * ?cols + 1)) \<le> int (length (data (Region2 src)))"
        using cap that by (simp only: of_nat_le_iff)
      then show ?thesis by simp
    qed
    show ?thesis
      using compat d1 d0 chk by (auto simp: ExclusiveSum_def Let_def cong: sum.case_cong)
  qed
  have "\<exists>d. Transpose junk ?c src ?stz = Inr d \<and>
           Dim0 d = Dim0 ?stz \<and> Dim1 d = Dim1 ?stz \<and> ElemStride0 d = ElemStride0 ?stz \<and>
           Offset2 d = Offset2 ?stz \<and> Context2 d = Context2 ?stz \<and> Array2_ok d \<and>
           (\<forall>i<Dim0 ?stz. \<forall>j<Dim1 ?stz. At2 d i j = At2 src j i)"
    using contiguous_ok[of ?cols ?rows junk ?c 1]
    by (intro Transpose_result) (simp_all add: IsCompatible_def Context2_def NewRegion_def)
  then obtain st where st: "Transpose junk ?c src ?stz = Inr st"
    "\<And>j r. j < ?cols \<Longrightarrow> r < ?rows \<Longrightarrow> At2 st j r = At2 src r j"
    by auto
  let ?dt = "ExclusiveSumPerRow st ?dtz"
  have okdt0: "Array2_ok ?dtz" using contiguous_ok[of ?cols ?dm junk ?c 0] by simp
  have dt: "At2 ?dt j k = sum_list (map (\<lambda>r. At2 src r j) [0..<k])" if "j < ?cols" "k < ?dm" for j k
  proof -
    have "At2 ?dt j k = sum_list (map (At2 st j) [0..<k])"
      using that by (intro ExclusiveSumPerRow_elems(1)[OF okdt0]) simp_all
    moreover have "map (At2 st j) [0..<k] = map (\<lambda>r. At2 src r j) [0..<k]"
      using that d0 st(2)[of j] by (intro map_cong) auto
    ultimately show ?thesis by simp
  qed
  have "\<exists>d. Transpose junk ?c ?dt dest = Inr d \<and>
           Dim0 d = Dim0 dest \<and> Dim1 d = Dim1 dest \<and> ElemStride0 d = ElemStride0 dest \<and>
           Offset2 d = Offset2 dest \<and> Context2 d = Context2 dest \<and> Array2_ok d \<and>
           (\<forall>i<Dim0 dest. \<forall>j<Dim1 dest. At2 d i j = At2 ?dt j i)"
    using ok d1 cd
    by (intro Transpose_result)
       (simp_all add: IsCompatible_def ExclusiveSumPerRow_fields,
        simp add: Context2_def NewRegion_def)
  then obtain d where d: "Transpose junk ?c ?dt dest = Inr d" "Dim0 d = Dim0 dest"
    "Dim1 d = Dim1 dest" "\<And>i j. i < Dim0 dest \<Longrightarrow> j < Dim1 dest \<Longrightarrow> At2 d i j = At2 ?dt j i"
    by auto
  have "At2 d i j = column_exclusive_sum_spec src j i" if "i < Dim0 dest" "j < Dim1 dest" for i j
    using d(4)[OF that] dt[of j i] that d1 by (simp add: column_exclusive_sum_spec_sum)
  moreover have "ExclusiveSum junk src dest 0 = Inr d" by (simp only: E st(1) sum.case d(1))
  ultimately show ?thesis using d(2,3) by blast
qed

theorem ExclusiveSum_columns_witness:
  "(\<exists>d. ExclusiveSum zero_fill (example_matrix CpuContext) (example_columns_dest CpuContext) 0 = Inr d \<and>
      At2 d 0 0 = 0 \<and> At2 d 0 1 = 0 \<and> At2 d 1 0 = 11 \<and> At2 d 1 1 = 12 \<and>
      At2 d 2 0 = 25 \<and> At2 d 2 1 = 27) \<and>
   (\<exists>d. ExclusiveSum zero_fill (example_matrix (CudaContext 0)) (example_columns_dest (CudaContext 0)) 0
          = Inr d \<and>
      At2 d 0 0 = 0 \<and> At2 d 0 1 = 0 \<and> At2 d 1 0 = 11 \<and> At2 d 1 1 = 12 \<and>
      At2 d 2 0 = 25 \<and> At2 d 2 1 = 27)"
proof -
  have inst: "\<exists>d. ExclusiveSum zero_fill (example_matrix c) (example_columns_dest c) 0 = Inr d \<and>
      At2 d 0 0 = 0 \<and> At2 d 0 1 = 0 \<and> At2 d 1 0 = 11 \<and> At2 d 1 1 = 12 \<and>
      At2 d 2 0 = 25 \<and> At2 d 2 1 = 27" for c
  proof -
    let ?M = "example_matrix c" and ?D = "example_columns_dest c"
    have k: "IsCompatible (Context2 ?M) (Context2 ?D)"
      by (simp add: IsCompatible_def Context2_def example_matrix_def example_columns_dest_def)
    have d: "Dim1 ?D = Dim1 ?M" "Dim0 ?D = Dim0 ?M \<or> Dim0 ?D = Dim0 ?M + 1"
      "Dim0 ?D = Dim0 ?M + 1 \<longrightarrow> Offset2 ?M + (Dim0 ?M * Dim1 ?M + 1) \<le> length (data (Region2 ?M))"
      "Array2_ok ?D" "Array2_ok ?M"
      by (simp_all add: Array2_ok_def example_matrix_def example_columns_dest_def)
    have n: "Dim0 ?D = 3" "Dim1 ?D = 2" by (simp_all add: example_columns_dest_def)
    have m: "At2 ?M 0 0 = 11" "At2 ?M 0 1 = 12" "At2 ?M 1 0 = 14" "At2 ?M 1 1 = 15"
      "At2 ?M 0 (Suc 0) = 12" "At2 ?M (Suc 0) 0 = 14" "At2 ?M (Suc 0) (Suc 0) = 15"
      by (simp_all add: example_matrix_def At2_def Data2_def)
    have s: "column_exclusive_sum_spec ?M j 0 = 0"
      "column_exclusive_sum_spec ?M j 1 = At2 ?M 0 j"
      "column_exclusive_sum_spec ?M j 2 = At2 ?M 0 j + At2 ?M 1 j" for j
      by (simp_all add: numeral_2_eq_2)
    obtain r where r: "ExclusiveSum zero_fill ?M ?D 0 = Inr r"
      "\<forall>i<Dim0 ?D. \<forall>j<Dim1 ?D. At2 r i j = column_exclusive_sum_spec ?M j i"
      using ExclusiveSum_columns[OF k d, of zero_fill] by blast
    have "At2 r 0 0 = 0" "At2 r 0 1 = 0" "At2 r 1 0 = 11" "At2 r 1 1 = 12"
      "At2 r 2 0 = 25" "At2 r 2 1 = 27"
      using r(2) n m by (simp_all add: s)
    with r(1) show ?thesis by blast
  qed
  show ?thesis using inst[of CpuContext] inst[of "CudaContext 0"] by blast
qed

section \<open>Append: row splits and positions\<close>

lemma offs_0: "offs src 0 = 0"
  by (simp add: offs_def)

lemma offs_Suc: "k < length src \<Longrightarrow> offs src (Suc k) = offs src k + Dim (src ! k)"
  by (simp add: offs_def take_Suc_conv_app_nth)

lemma offs_total: "offs src (length src) = sum_list (map Dim src)"
  by (simp add: offs_def)

lemma offs_mono: "i \<le> k \<Longrightarrow> offs src i \<le> offs src k"
proof (induction k)
  case 0
  then show ?case by simp
next
  case (Suc k)
  show ?case
  proof (cases "i = Suc k")
    case True
    then show ?thesis by simp
  next
    case False
    then have "offs src i \<le> offs src k" using Suc by simp
    moreover have "offs src k \<le> offs src (Suc k)"
    proof (cases "k < length src")
      case True
      then show ?thesis by (simp add: offs_Suc)
    next
      case False
      then show ?thesis by (simp add: offs_def)
    qed
    ultimately show ?thesis by simp
  qed
qed

text \<open>Positions of different sources do not meet.\<close>

lemma offs_inj:
  assumes "i < length src" "i' < length src" "j < Dim (src ! i)" "j' < Dim (src ! i')"
      and "offs src i + j = offs src i' + j'"
  shows "i = i' \<and> j = j'"
proof -
  have lt: "offs src a + b < offs src c" if "a < c" "a < length src" "b < Dim (src ! a)" for a b c
  proof -
    have "offs src a + b < offs src (Suc a)" using that by (simp add: offs_Suc)
    also have "\<dots> \<le> offs src c" using that(1) by (intro offs_mono) simp
    finally show ?thesis .
  qed
  have "i = i'"
  proof (rule ccontr)
    assume "i \<noteq> i'"
    then consider "i < i'" | "i' < i" by arith
    then show False
    proof cases
      case 1
      from lt[OF 1 assms(1,3)] assms(5) show False by simp
    next
      case 2
      from lt[OF 2 assms(2,4)] assms(5) show False by simp
    qed
  qed
  then show ?thesis using assms(5) by simp
qed

lemma offs_bound:
  assumes "i < length src" "j < Dim (src ! i)"
  shows "offs src i + j < sum_list (map Dim src)"
proof -
  have "offs src i + j < offs src (Suc i)" using assms by (simp add: offs_Suc)
  also have "\<dots> \<le> offs src (length src)" using assms(1) by (intro offs_mono) simp
  finally show ?thesis by (simp add: offs_total)
qed

text \<open>A list that holds every source at its place is the concatenation.\<close>

lemma concat_by_offs:
  "length xs = sum_list (map Dim src) \<Longrightarrow>
   (\<And>i j. i < length src \<Longrightarrow> j < Dim (src ! i) \<Longrightarrow> xs ! (offs src i + j) = Data1 (src ! i) j) \<Longrightarrow>
   xs = concat (map Elems1 src)"
proof (induction src arbitrary: xs rule: rev_induct)
  case Nil
  then show ?case by simp
next
  case (snoc a ss)
  let ?m = "sum_list (map Dim ss)"
  have o: "offs (ss @ [a]) i = offs ss i" if "i \<le> length ss" for i
    using that by (simp add: offs_def)
  have "take ?m xs = concat (map Elems1 ss)"
  proof (rule snoc.IH)
    show "length (take ?m xs) = ?m" using snoc.prems(1) by simp
    fix i j assume ij: "i < length ss" "j < Dim (ss ! i)"
    have "offs ss i + j < ?m" using offs_bound[OF ij] .
    then have "take ?m xs ! (offs ss i + j) = xs ! (offs ss i + j)" by simp
    also have "\<dots> = Data1 ((ss @ [a]) ! i) j"
      using snoc.prems(2)[of i j] ij o[of i] by (simp add: nth_append)
    finally show "take ?m xs ! (offs ss i + j) = Data1 (ss ! i) j"
      using ij by (simp add: nth_append)
  qed
  moreover have "drop ?m xs = Elems1 a"
  proof (rule nth_equalityI)
    show "length (drop ?m xs) = length (Elems1 a)"
      using snoc.prems(1) by (simp add: Elems1_def)
    fix j assume "j < length (drop ?m xs)"
    then have j: "j < Dim a" using snoc.prems(1) by simp
    have "xs ! (offs (ss @ [a]) (length ss) + j) = Data1 ((ss @ [a]) ! length ss) j"
      using j by (intro snoc.prems(2)) simp_all
    then have "xs ! (?m + j) = Data1 a j" by (simp add: o offs_total)
    then show "drop ?m xs ! j = Elems1 a ! j"
      using j snoc.prems(1) by (simp add: Elems1_def)
  qed
  ultimately have "xs = concat (map Elems1 ss) @ Elems1 a"
    by (metis append_take_drop_id)
  then show ?case by simp
qed

lemma Append_block_dim_total:
  "0 < b \<Longrightarrow> \<exists>r. Append_block_dim b avg = Some r \<and> 0 < r"
proof (induction "8192 - b" arbitrary: b rule: less_induct)
  case less
  show ?case
  proof (cases "b * 4 < avg \<and> b < 8192")
    case True
    then have "8192 - b * 2 < 8192 - b" using less.prems by arith
    then have "\<exists>r. Append_block_dim (b * 2) avg = Some r \<and> 0 < r"
      using less.prems by (intro less.hyps) simp_all
    then show ?thesis using True by (subst Append_block_dim.simps) simp
  next
    case False
    then show ?thesis using less.prems by (subst Append_block_dim.simps) auto
  qed
qed


lemma Append_row_splits_loop:
  assumes "k \<le> n" "n \<le> length src"
  shows "\<exists>rs md.
           fold (\<lambda>i (row_splits_vec, sum, max_dim).
                   let dim = Dim (src ! i);
                       max_dim = (if dim > max_dim then dim else max_dim);
                       sum = sum + dim
                   in (row_splits_vec[i + 1 := sum], sum, max_dim))
             [0..<k] ((replicate (n + 1) 0)[0 := 0], 0, 0) = (rs, offs src k, md) \<and>
           length rs = n + 1 \<and> (\<forall>i\<le>k. rs ! i = offs src i) \<and> (\<forall>i<k. Dim (src ! i) \<le> md)"
  using assms(1)
proof (induction k)
  case 0
  show ?case by (simp add: offs_0)
next
  case (Suc k)
  let ?step = "\<lambda>i (row_splits_vec, sum, max_dim).
                   let dim = Dim (src ! i);
                       max_dim = (if dim > max_dim then dim else max_dim);
                       sum = sum + dim
                   in (row_splits_vec[i + 1 := sum], sum, max_dim)"
  let ?init = "((replicate (n + 1) (0::nat))[0 := 0], 0::nat, 0::nat)"
  obtain rs md where IH: "fold ?step [0..<k] ?init = (rs, offs src k, md)"
    "length rs = n + 1" "\<forall>i\<le>k. rs ! i = offs src i" "\<forall>i<k. Dim (src ! i) \<le> md"
    using Suc by auto
  have k: "k < length src" using Suc.prems assms(2) by simp
  let ?md = "if Dim (src ! k) > md then Dim (src ! k) else md"
  let ?rs = "rs[k + 1 := offs src (Suc k)]"
  have "fold ?step [0..<Suc k] ?init = ?step k (fold ?step [0..<k] ?init)"
    by (simp only: upt_Suc_append[OF le0] fold_append fold.simps comp_def id_def)
  also have "\<dots> = ?step k (rs, offs src k, md)" by (simp only: IH(1))
  also have "\<dots> = (?rs, offs src (Suc k), ?md)"
    by (simp add: Let_def offs_Suc[OF k])
  finally have "fold ?step [0..<Suc k] ?init = (?rs, offs src (Suc k), ?md)" .
  moreover have "length ?rs = n + 1" using IH(2) by simp
  moreover have "\<forall>i\<le>Suc k. ?rs ! i = offs src i"
    using IH(2,3) Suc.prems by (auto simp: nth_list_update le_Suc_eq)
  moreover have "\<forall>i<Suc k. Dim (src ! i) \<le> ?md"
    using IH(4) by (auto simp: less_Suc_eq intro: order_trans)
  ultimately show ?case by blast
qed

lemma Append_row_splits_result:
  "\<exists>md. Append_row_splits (length src) src =
           (map (offs src) [0..<length src + 1], sum_list (map Dim src), md) \<and>
         (\<forall>i<length src. Dim (src ! i) \<le> md)"
proof -
  obtain rs md where r: "Append_row_splits (length src) src = (rs, offs src (length src), md)"
    "length rs = length src + 1" "\<forall>i\<le>length src. rs ! i = offs src i"
    "\<forall>i<length src. Dim (src ! i) \<le> md"
    using Append_row_splits_loop[of "length src" "length src" src]
    unfolding Append_row_splits_def by auto
  have "rs = map (offs src) [0..<length src + 1]"
    using r(2,3) by (intro nth_equalityI) (simp_all add: less_Suc_eq_le del: upt_Suc)
  then show ?thesis using r(1,4) by (auto simp: offs_total)
qed

text \<open>An entry of \<open>index_map\<close> gives back its source index and its block number.\<close>

lemma index_word:
  fixes b i :: nat
  assumes "b < 2 ^ 32" "i < 2 ^ 32"
  shows "unat (push_bit 32 (of_nat b) + of_nat i :: 64 word) = b * 2 ^ 32 + i"
proof -
  have e: "word_of_nat (b * 2 ^ 32 + i) = (push_bit 32 (of_nat b) + of_nat i :: 64 word)"
    by (simp add: push_bit_eq_mult)
  have "b * 2 ^ 32 + i < 2 ^ 64"
  proof -
    have "b * 2 ^ 32 + i < b * 2 ^ 32 + 2 ^ 32" using assms(2) by simp
    also have "\<dots> = (b + 1) * 2 ^ 32" by simp
    also have "\<dots> \<le> 2 ^ 32 * 2 ^ 32" using assms(1) by (intro mult_le_mono1) simp
    finally show ?thesis by simp
  qed
  then have "b * 2 ^ 32 + i < 2 ^ LENGTH(64)" by simp
  with e show ?thesis by (rule of_nat_inverse)
qed

lemma decode_index:
  fixes b i :: nat
  assumes "b < 2 ^ 32" "i < 2 ^ 32"
  shows "unat (ucast (push_bit 32 (of_nat b) + of_nat i :: 64 word) :: 32 word) = i"
    and "unat (ucast (drop_bit 32 (push_bit 32 (of_nat b) + of_nat i :: 64 word)) :: 32 word) = b"
proof -
  let ?w = "push_bit 32 (of_nat b) + of_nat i :: 64 word"
  have u: "unat ?w = b * 2 ^ 32 + i" using assms by (rule index_word)
  have "unat (ucast ?w :: 32 word) = unat ?w mod 2 ^ 32"
    by (simp add: unsigned_ucast_eq take_bit_eq_mod)
  then show "unat (ucast ?w :: 32 word) = i" using assms(2) by (simp add: u)
  have "unat (drop_bit 32 ?w) = drop_bit 32 (unat ?w)"
    by (rule unat_drop_bit_eq)
  also have "\<dots> = unat ?w div 2 ^ 32"
    by (rule drop_bit_eq_div)
  finally have "unat (drop_bit 32 ?w) = unat ?w div 2 ^ 32" .
  then have "unat (drop_bit 32 ?w) = b" using assms(2) by (simp add: u)
  moreover have "unat (ucast (drop_bit 32 ?w) :: 32 word) = unat (drop_bit 32 ?w) mod 2 ^ 32"
    by (simp add: unsigned_ucast_eq take_bit_eq_mod)
  ultimately show "unat (ucast (drop_bit 32 ?w) :: 32 word) = b" using assms(1) by simp
qed

section \<open>Append: the three copies\<close>

lemma memcpy_writes: "memcpy dst f n mem = writes (\<lambda>k. True) (\<lambda>k. dst + k) f [0..<n] mem"
  by (simp add: memcpy_def writes_def)

lemma length_memcpy: "length (memcpy dst f n mem) = length mem"
  by (simp add: memcpy_writes length_writes)

lemma memcpy_hit: "dst + n \<le> length mem \<Longrightarrow> j < n \<Longrightarrow> memcpy dst f n mem ! (dst + j) = f j"
  unfolding memcpy_writes
  by (rule writes_hit[where idx = "\<lambda>k. dst + k" and val = f and q = j]) auto

lemma memcpy_other: "k < dst \<or> dst + n \<le> k \<Longrightarrow> memcpy dst f n mem ! k = mem ! k"
  unfolding memcpy_writes by (rule writes_other) auto

lemma Append_cpu_loop:
  assumes "k \<le> length src" "off + sum_list (map Dim src) \<le> length mem"
  shows "\<exists>m. fold (\<lambda>i (mem, ans_data).
                  let offset = rs ! i;
                      this_dim = Dim (src ! i);
                      this_src_data = Data1 (src ! i)
                  in (memcpy ans_data this_src_data this_dim mem, ans_data + this_dim))
            [0..<k] (mem, off) = (m, off + offs src k) \<and>
          length m = length mem \<and>
          (\<forall>i<k. \<forall>j<Dim (src ! i). m ! (off + (offs src i + j)) = Data1 (src ! i) j)"
  using assms(1)
proof (induction k)
  case 0
  show ?case by (simp add: offs_0)
next
  case (Suc k)
  let ?step = "\<lambda>i (mem, ans_data).
                  let offset = rs ! i;
                      this_dim = Dim (src ! i);
                      this_src_data = Data1 (src ! i)
                  in (memcpy ans_data this_src_data this_dim mem, ans_data + this_dim)"
  obtain m where IH: "fold ?step [0..<k] (mem, off) = (m, off + offs src k)"
    "length m = length mem"
    "\<forall>i<k. \<forall>j<Dim (src ! i). m ! (off + (offs src i + j)) = Data1 (src ! i) j"
    using Suc by auto
  have k: "k < length src" using Suc.prems by simp
  let ?m = "memcpy (off + offs src k) (Data1 (src ! k)) (Dim (src ! k)) m"
  have "fold ?step [0..<Suc k] (mem, off) = ?step k (fold ?step [0..<k] (mem, off))"
    by (simp only: upt_Suc_append[OF le0] fold_append fold.simps comp_def id_def)
  also have "\<dots> = ?step k (m, off + offs src k)" by (simp only: IH(1))
  also have "\<dots> = (?m, off + offs src (Suc k))"
    by (simp add: Let_def offs_Suc[OF k])
  finally have st: "fold ?step [0..<Suc k] (mem, off) = (?m, off + offs src (Suc k))" .
  have fit: "(off + offs src k) + Dim (src ! k) \<le> length m"
  proof -
    have "offs src (Suc k) \<le> offs src (length src)" using k by (intro offs_mono) simp
    then show ?thesis using assms(2) IH(2) by (simp add: offs_Suc[OF k] offs_total)
  qed
  have "?m ! (off + (offs src i + j)) = Data1 (src ! i) j" if "i < Suc k" "j < Dim (src ! i)" for i j
  proof (cases "i = k")
    case True
    then show ?thesis using memcpy_hit[OF fit, of j "Data1 (src ! k)"] that by (simp add: add.assoc)
  next
    case False
    then have ik: "i < k" using that by simp
    have "offs src i + j < offs src (Suc i)" using that ik k by (simp add: offs_Suc)
    also have "\<dots> \<le> offs src k" using ik by (intro offs_mono) simp
    finally have "off + (offs src i + j) < off + offs src k" by simp
    then have "?m ! (off + (offs src i + j)) = m ! (off + (offs src i + j))"
      by (intro memcpy_other) simp
    then show ?thesis using IH(3) ik that by simp
  qed
  then show ?case using st IH(2) by (auto simp: length_memcpy)
qed

lemma Append_cpu_result:
  assumes "Offset1 ans + sum_list (map Dim src) \<le> length (data (Region1 ans))"
  shows "length (Append_cpu (length src) src rs ans) = length (data (Region1 ans))"
    and "i < length src \<Longrightarrow> j < Dim (src ! i) \<Longrightarrow>
         Append_cpu (length src) src rs ans ! (Offset1 ans + (offs src i + j)) = Data1 (src ! i) j"
  using Append_cpu_loop[OF order_refl assms, of rs] by (auto simp: Append_cpu_def)

lemma row_splits_nth:
  "i \<le> length src \<Longrightarrow> map (offs src) [0..<length src + 1] ! i = offs src i"
  by (simp add: less_Suc_eq_le del: upt_Suc)

lemma row_len:
  assumes "i < length src"
  shows "(int j < int (map (offs src) [0..<length src + 1] ! (i + 1))
                   - int (map (offs src) [0..<length src + 1] ! i)) = (j < Dim (src ! i))"
  using assms row_splits_nth[of i src] row_splits_nth[of "i + 1" src]
  by (simp add: offs_Suc del: upt_Suc)

lemma Append_rect_result:
  assumes fit: "Offset1 ans + sum_list (map Dim src) \<le> length (data (Region1 ans))"
      and md: "\<And>i. i < length src \<Longrightarrow> Dim (src ! i) \<le> max_dim"
  shows "length (Append_rect c (length src) max_dim src (map (offs src) [0..<length src + 1]) ans)
           = length (data (Region1 ans))"
    and "i < length src \<Longrightarrow> j < Dim (src ! i) \<Longrightarrow>
         Append_rect c (length src) max_dim src (map (offs src) [0..<length src + 1]) ans
           ! (Offset1 ans + (offs src i + j)) = Data1 (src ! i) j"
proof -
  let ?n = "length src" and ?rs = "map (offs src) [0..<length src + 1]"
  let ?P = "\<lambda>i j. int j < int (?rs ! (i + 1)) - int (?rs ! i)"
  let ?idx = "\<lambda>i j. Offset1 ans + (?rs ! i + j)"
  let ?val = "\<lambda>i j. (map (\<lambda>i. Data1 (src ! i)) [0..<?n] ! i) j"
  have eq: "Append_rect c ?n max_dim src ?rs ans =
          Eval2 c ?n max_dim (\<lambda>i j xs. if ?P i j then xs[?idx i j := ?val i j] else xs)
            (data (Region1 ans))"
    by (simp add: Append_rect_def Let_def poke_def del: upt_Suc cong: if_cong)
  show "length (Append_rect c ?n max_dim src ?rs ans) = length (data (Region1 ans))"
    unfolding eq by (rule length_Eval2)
  assume ij: "i < ?n" "j < Dim (src ! i)"
  have P: "?P a b = (b < Dim (src ! a))" if "a < ?n" for a b
    using row_len[OF that] .
  have I: "?idx a b = Offset1 ans + (offs src a + b)" if "a < ?n" for a b
    using that row_splits_nth[of a src] by (simp del: upt_Suc)
  have V: "?val a b = Data1 (src ! a) b" if "a < ?n" for a b
    using that by simp
  have "Eval2 c ?n max_dim (\<lambda>i j xs. if ?P i j then xs[?idx i j := ?val i j] else xs)
          (data (Region1 ans)) ! ?idx i j = ?val i j"
  proof (rule Eval2_hit)
    fix a b a' b' assume a: "a < ?n" "a' < ?n" and p: "?P a b" "?P a' b'" and e: "?idx a b = ?idx a' b'"
    have "b < Dim (src ! a)" "b' < Dim (src ! a')" using p P a by simp_all
    moreover have "offs src a + b = offs src a' + b'" using e I a by simp
    ultimately have "a = a' \<and> b = b'" using a by (intro offs_inj) simp_all
    then show "?val a b = ?val a' b'" by simp
  next
    fix a b assume a: "a < ?n" and p: "?P a b"
    then have "b < Dim (src ! a)" using P by simp
    then have "offs src a + b < sum_list (map Dim src)" using a by (intro offs_bound)
    then show "?idx a b < length (data (Region1 ans))" using fit I[OF a] by simp
  next
    show "i < ?n" using ij by simp
    show "j < max_dim" using ij md[of i] by simp
    show "?P i j" using P ij by simp
  qed
  then show "Append_rect c ?n max_dim src ?rs ans ! (Offset1 ans + (offs src i + j))
               = Data1 (src ! i) j"
    unfolding eq using I[OF ij(1)] V[OF ij(1)] by simp
qed


lemma fold_snoc_map: "fold (\<lambda>j im. im @ [g j]) xs im = im @ map g xs"
  by (induction xs arbitrary: im) simp_all

lemma fold_append_concat: "fold (\<lambda>i im. im @ h i) xs im = im @ concat (map h xs)"
  by (induction xs arbitrary: im) simp_all

lemma Append_index_map_eq:
  "Append_index_map n src bd =
     concat (map (\<lambda>i. map (\<lambda>j. push_bit 32 (of_nat j) + of_nat i)
                        [0..<(Dim (src ! i) + bd - 1) div bd]) [0..<n])"
  by (simp add: Append_index_map_def Let_def fold_snoc_map fold_append_concat)

lemma num_blocks_le:
  fixes d bd :: nat
  assumes "0 < bd"
  shows "(d + bd - 1) div bd \<le> d"
proof (cases d)
  case 0
  then show ?thesis using assms by simp
next
  case (Suc m)
  have "d + bd - 1 < (d + 1) * bd"
  proof -
    have "d \<le> d * bd" using assms by simp
    then show ?thesis using Suc assms by simp
  qed
  then have "(d + bd - 1) div bd < d + 1" using assms by (simp add: div_less_iff_less_mult)
  then show ?thesis by simp
qed

lemma block_covers:
  fixes k d bd :: nat
  assumes "0 < bd" "k < d"
  shows "k div bd < (d + bd - 1) div bd"
proof -
  have "k + bd \<le> d + bd - 1" using assms by simp
  then have "(k + bd) div bd \<le> (d + bd - 1) div bd" by (rule div_le_mono)
  moreover have "(k + bd) div bd = k div bd + 1" using assms(1) div_add_self2[of bd k] by simp
  ultimately show ?thesis by simp
qed

lemma set_concat_map_upt:
  "x \<in> set (concat (map (\<lambda>i. map (g i) [0..<m i]) [0..<n])) \<longleftrightarrow> (\<exists>a<n. \<exists>b<m a. x = g a b)"
proof
  assume "x \<in> set (concat (map (\<lambda>i. map (g i) [0..<m i]) [0..<n]))"
  then obtain a b where "a < n" "b < m a" "x = g a b" by auto
  then show "\<exists>a<n. \<exists>b<m a. x = g a b" by blast
next
  assume "\<exists>a<n. \<exists>b<m a. x = g a b"
  then obtain a b where ab: "a < n" "b < m a" "x = g a b" by blast
  then have "x \<in> set (map (g a) [0..<m a])" by simp
  moreover have "map (g a) [0..<m a] \<in> set (map (\<lambda>i. map (g i) [0..<m i]) [0..<n])"
    using ab(1) by simp
  ultimately show "x \<in> set (concat (map (\<lambda>i. map (g i) [0..<m i]) [0..<n]))"
    unfolding set_concat by blast
qed

lemma Append_index_map_set:
  "x \<in> set (Append_index_map n src bd) \<longleftrightarrow>
     (\<exists>a<n. \<exists>b<(Dim (src ! a) + bd - 1) div bd. x = push_bit 32 (of_nat b) + of_nat a)"
  unfolding Append_index_map_eq
  by (rule set_concat_map_upt[where g = "\<lambda>i j. push_bit 32 (of_nat j) + of_nat i"])

lemma Append_blocks_result:
  assumes fit: "Offset1 ans + sum_list (map Dim src) \<le> length (data (Region1 ans))"
      and bd: "0 < bd"
      and n32: "length src < 2 ^ 32"
      and d32: "\<And>i. i < length src \<Longrightarrow> Dim (src ! i) < 2 ^ 32"
  shows "length (Append_blocks c (length src) bd src (map (offs src) [0..<length src + 1]) ans)
           = length (data (Region1 ans))"
    and "i < length src \<Longrightarrow> k < Dim (src ! i) \<Longrightarrow>
         Append_blocks c (length src) bd src (map (offs src) [0..<length src + 1]) ans
           ! (Offset1 ans + (offs src i + k)) = Data1 (src ! i) k"
proof -
  let ?n = "length src" and ?rs = "map (offs src) [0..<length src + 1]"
  let ?im = "Append_index_map ?n src bd"
  let ?oi = "\<lambda>p. unat (ucast (?im ! p) :: 32 word)"
  let ?bi = "\<lambda>p. unat (ucast (drop_bit 32 (?im ! p)) :: 32 word)"
  let ?P = "\<lambda>p j. int (?bi p * bd + j) < int (?rs ! (?oi p + 1)) - int (?rs ! ?oi p)"
  let ?idx = "\<lambda>p j. Offset1 ans + (?rs ! ?oi p + (?bi p * bd + j))"
  let ?val = "\<lambda>p j. (map (\<lambda>i. Data1 (src ! i)) [0..<?n] ! ?oi p) (?bi p * bd + j)"
  have eq: "Append_blocks c ?n bd src ?rs ans =
          Eval2 c (length ?im) bd (\<lambda>p j xs. if ?P p j then xs[?idx p j := ?val p j] else xs)
            (data (Region1 ans))"
    by (simp add: Append_blocks_def Let_def poke_def del: upt_Suc cong: if_cong)
  show "length (Append_blocks c ?n bd src ?rs ans) = length (data (Region1 ans))"
    unfolding eq by (rule length_Eval2)
  note mem = Append_index_map_set[of _ ?n src bd]
  have dec: "?oi p < ?n \<and> ?bi p < (Dim (src ! ?oi p) + bd - 1) div bd" if "p < length ?im" for p
  proof -
    have "?im ! p \<in> set ?im" using that by simp
    then obtain a b where ab: "a < ?n" "b < (Dim (src ! a) + bd - 1) div bd"
      "?im ! p = push_bit 32 (of_nat b) + of_nat a"
      using mem by blast
    have b32: "b < 2 ^ 32"
      using ab(2) num_blocks_le[OF bd, of "Dim (src ! a)"] d32[OF ab(1)] by simp
    have a32: "a < 2 ^ 32" using ab(1) n32 by simp
    have "?oi p = a" unfolding ab(3) by (rule decode_index(1)[OF b32 a32])
    moreover have "?bi p = b" unfolding ab(3) by (rule decode_index(2)[OF b32 a32])
    ultimately show ?thesis using ab(1,2) by simp
  qed
  have P: "?P p j = (?bi p * bd + j < Dim (src ! ?oi p))" if "p < length ?im" for p j
    using row_len[of "?oi p" src "?bi p * bd + j"] dec[OF that] by simp
  have I: "?idx p j = Offset1 ans + (offs src (?oi p) + (?bi p * bd + j))" if "p < length ?im" for p j
    using row_splits_nth[of "?oi p" src] dec[OF that] by (simp del: upt_Suc)
  have V: "?val p j = Data1 (src ! ?oi p) (?bi p * bd + j)" if "p < length ?im" for p j
    using dec[OF that] by simp
  assume ik: "i < ?n" "k < Dim (src ! i)"
  have "k div bd < (Dim (src ! i) + bd - 1) div bd" using bd ik(2) by (rule block_covers)
  then have "push_bit 32 (of_nat (k div bd)) + of_nat i \<in> set ?im" using mem ik(1) by blast
  then obtain p where p: "p < length ?im" "?im ! p = push_bit 32 (of_nat (k div bd)) + of_nat i"
    by (auto simp: in_set_conv_nth)
  have k32: "k div bd < 2 ^ 32"
  proof -
    have "k div bd \<le> k" by (rule div_le_dividend)
    then show ?thesis using ik(2) d32[OF ik(1)] by linarith
  qed
  have i32: "i < 2 ^ 32" using ik(1) n32 by simp
  have dp: "?oi p = i" "?bi p = k div bd"
    unfolding p(2) by (rule decode_index(1)[OF k32 i32], rule decode_index(2)[OF k32 i32])
  have kk: "?bi p * bd + k mod bd = k" by (simp add: dp(2))
  have "Eval2 c (length ?im) bd (\<lambda>p j xs. if ?P p j then xs[?idx p j := ?val p j] else xs)
          (data (Region1 ans)) ! ?idx p (k mod bd) = ?val p (k mod bd)"
  proof (rule Eval2_hit)
    fix a b a' b' assume a: "a < length ?im" "a' < length ?im"
      and pp: "?P a b" "?P a' b'" and e: "?idx a b = ?idx a' b'"
    have "?bi a * bd + b < Dim (src ! ?oi a)" "?bi a' * bd + b' < Dim (src ! ?oi a')"
      using pp P a by simp_all
    moreover have "offs src (?oi a) + (?bi a * bd + b) = offs src (?oi a') + (?bi a' * bd + b')"
      using e I a by simp
    ultimately have "?oi a = ?oi a' \<and> ?bi a * bd + b = ?bi a' * bd + b'"
      using dec[OF a(1)] dec[OF a(2)] by (intro offs_inj) simp_all
    then show "?val a b = ?val a' b'" by simp
  next
    fix a b assume a: "a < length ?im" and pp: "?P a b"
    then have "?bi a * bd + b < Dim (src ! ?oi a)" using P by simp
    then have "offs src (?oi a) + (?bi a * bd + b) < sum_list (map Dim src)"
      using dec[OF a] by (intro offs_bound) simp_all
    then show "?idx a b < length (data (Region1 ans))" using fit I[OF a] by simp
  next
    show "p < length ?im" using p(1) .
    show "k mod bd < bd" using bd by simp
    have "?bi p * bd + k mod bd < Dim (src ! ?oi p)" unfolding kk dp(1) by (rule ik(2))
    then show "?P p (k mod bd)" by (simp only: P[OF p(1)])
  qed
  moreover have "?idx p (k mod bd) = Offset1 ans + (offs src i + k)"
    using I[OF p(1), of "k mod bd"] unfolding kk dp(1) .
  moreover have "?val p (k mod bd) = Data1 (src ! i) k"
    using V[OF p(1), of "k mod bd"] unfolding kk dp(1) .
  ultimately have "Eval2 c (length ?im) bd (\<lambda>p j xs. if ?P p j then xs[?idx p j := ?val p j] else xs)
          (data (Region1 ans)) ! (Offset1 ans + (offs src i + k)) = Data1 (src ! i) k"
    by (simp only:)
  then show "Append_blocks c ?n bd src ?rs ans ! (Offset1 ans + (offs src i + k)) = Data1 (src ! i) k"
    unfolding eq .
qed

section \<open>Append: the result\<close>

lemma Elems1_set_data1:
  assumes "Offset1 a = 0" "length mem = Dim a"
  shows "Elems1 (set_data1 a mem) = mem"
proof -
  have "Elems1 (set_data1 a mem) = map ((!) mem) [0..<length mem]"
    using assms by (simp add: Elems1_def set_data1_def Data1_def)
  then show ?thesis by (simp add: map_nth)
qed

lemma Append_body_result:
  assumes pos: "0 < num_arrays" and n: "nat num_arrays = length src"
      and tot: "sum_list (map Dim src) < 2 ^ 31" and len: "length src < 2 ^ 31"
  shows "\<exists>ans. Append_body junk num_arrays src
                  = Some (Inr (map (offs src) [0..<length src + 1], ans)) \<and>
               Dim ans = sum_list (map Dim src) \<and> Context1 ans = Context1 (src ! 0) \<and>
               Elems1 ans = concat (map Elems1 src)"
proof -
  let ?n = "length src" and ?rs = "map (offs src) [0..<length src + 1]"
  let ?total = "sum_list (map Dim src)" and ?c = "Context1 (src ! 0)"
  let ?ans = "NewArray1 junk ?c ?total"
  obtain md where rs: "Append_row_splits ?n src = (?rs, ?total, md)"
    and md: "\<And>i. i < ?n \<Longrightarrow> Dim (src ! i) \<le> md"
    using Append_row_splits_result[of src] by blast
  have a: "Offset1 ?ans = 0" "Dim ?ans = ?total" "length (data (Region1 ?ans)) = ?total"
    by (simp_all add: NewArray1_def NewRegion_def)
  have fit: "Offset1 ?ans + ?total \<le> length (data (Region1 ?ans))" using a by simp
  have n32: "?n < 2 ^ 32"
  proof -
    have "(2::nat) ^ 31 \<le> 2 ^ 32" by simp
    then show ?thesis using len by linarith
  qed
  have d32: "Dim (src ! i) < 2 ^ 32" if "i < ?n" for i
  proof -
    have "Dim (src ! i) \<in> set (map Dim src)" using that by simp
    then have "Dim (src ! i) \<le> ?total" by (intro member_le_sum_list) simp_all
    moreover have "(2::nat) ^ 31 \<le> 2 ^ 32" by simp
    ultimately show ?thesis using tot by linarith
  qed
  have fin: "Elems1 (set_data1 ?ans mem) = concat (map Elems1 src)"
    if "length mem = length (data (Region1 ?ans))"
      "\<And>i j. i < ?n \<Longrightarrow> j < Dim (src ! i) \<Longrightarrow>
             mem ! (Offset1 ?ans + (offs src i + j)) = Data1 (src ! i) j" for mem
  proof -
    have "mem = concat (map Elems1 src)"
      using that a by (intro concat_by_offs) simp_all
    moreover have "Elems1 (set_data1 ?ans mem) = mem"
      using that(1) a by (intro Elems1_set_data1) simp_all
    ultimately show ?thesis by simp
  qed
  have f: "Dim (set_data1 ?ans mem) = ?total" "Context1 (set_data1 ?ans mem) = ?c" for mem
    by (simp_all add: set_data1_def NewArray1_def NewRegion_def Context1_def)
  have body: "Append_body junk num_arrays src =
     (if GetDeviceType ?c = kCpu then
        Some (Inr (?rs, set_data1 ?ans (Append_cpu ?n src ?rs ?ans)))
      else if GetDeviceType ?c \<noteq> kCuda then Some (Inl CheckFailed)
      else if md < 2 * (?total div ?n) + 512 then
        Some (Inr (?rs, set_data1 ?ans (Append_rect ?c ?n md src ?rs ?ans)))
      else
        (case Append_block_dim 256 (?total div ?n) of
           None \<Rightarrow> None
         | Some block_dim \<Rightarrow>
             Some (Inr (?rs, set_data1 ?ans (Append_blocks ?c ?n block_dim src ?rs ?ans)))))"
    using pos by (simp add: Append_body_def n rs Let_def del: upt_Suc cong: option.case_cong)
  have dev: "GetDeviceType ?c = kCpu \<or> GetDeviceType ?c = kCuda" by (cases ?c) simp_all
  show ?thesis
  proof (cases "GetDeviceType ?c = kCpu")
    case True
    have "Elems1 (set_data1 ?ans (Append_cpu ?n src ?rs ?ans)) = concat (map Elems1 src)"
      by (rule fin) (rule Append_cpu_result[OF fit], rule Append_cpu_result(2)[OF fit])
    then show ?thesis using True f by (simp add: body del: upt_Suc)
  next
    case False
    then have cuda: "GetDeviceType ?c = kCuda" using dev by simp
    show ?thesis
    proof (cases "md < 2 * (?total div ?n) + 512")
      case True
      have "Elems1 (set_data1 ?ans (Append_rect ?c ?n md src ?rs ?ans)) = concat (map Elems1 src)"
        by (rule fin) (rule Append_rect_result[OF fit md], assumption,
                        rule Append_rect_result(2)[OF fit md])
      then show ?thesis using True False cuda f by (simp add: body del: upt_Suc)
    next
      case nr: False
      obtain bd where bd: "Append_block_dim 256 (?total div ?n) = Some bd" "0 < bd"
        using Append_block_dim_total[of 256 "?total div ?n"] by auto
      have "Elems1 (set_data1 ?ans (Append_blocks ?c ?n bd src ?rs ?ans)) = concat (map Elems1 src)"
        by (rule fin) (rule Append_blocks_result[OF fit bd(2) n32 d32], assumption,
                        rule Append_blocks_result(2)[OF fit bd(2) n32 d32])
      then show ?thesis using nr False cuda f bd(1) by (simp add: body del: upt_Suc)
    qed
  qed
qed

text \<open>
  Claim C2 on the code.  For a positive count of sources, on the host and under both
  strategies of the accelerator branch, the body of \<open>Append\<close> computes the row splits
  (the running totals of the source sizes) and fills the local array \<open>ans\<close> with the
  concatenation of the sources in order.  The function then ends without a
  \<open>return\<close> statement, so the call hands no array to its caller.  For sources of
  the lengths 3, 0 and 5 the row splits are \<open>[0, 3, 3, 8]\<close> and \<open>ans\<close> has length 8.
\<close>

theorem Append_returns_nothing:
  assumes "0 < num_arrays" and "nat num_arrays = length src"
      and "sum_list (map Dim src) < 2 ^ 31" and "length src < 2 ^ 31"
  shows "Append junk num_arrays src = Some (Inl MissingReturn) \<and>
         (\<exists>ans. Append_body junk num_arrays src
                  = Some (Inr (map (offs src) [0..<length src + 1], ans)) \<and>
                Dim ans = sum_list (map Dim src) \<and>
                Elems1 ans = concat (map Elems1 src))"
proof -
  obtain ans where b: "Append_body junk num_arrays src
                         = Some (Inr (map (offs src) [0..<length src + 1], ans))"
    "Dim ans = sum_list (map Dim src)" "Elems1 ans = concat (map Elems1 src)"
    using Append_body_result[OF assms, of junk] by blast
  have "Append junk num_arrays src = Some (Inl MissingReturn)"
    by (simp only: Append_def b(1) option.case sum.case)
  with b show ?thesis by blast
qed

theorem Append_returns_nothing_witness:
  "Append zero_fill 3 (example_sources CpuContext) = Some (Inl MissingReturn) \<and>
   (\<exists>ans. Append_body zero_fill 3 (example_sources CpuContext) = Some (Inr ([0, 3, 3, 8], ans)) \<and>
          Dim ans = 8 \<and> Elems1 ans = [1, 2, 3, 4, 5, 6, 7, 8]) \<and>
   Append zero_fill 3 (example_sources (CudaContext 0)) = Some (Inl MissingReturn) \<and>
   (\<exists>ans. Append_body zero_fill 3 (example_sources (CudaContext 0)) = Some (Inr ([0, 3, 3, 8], ans)) \<and>
          Dim ans = 8 \<and> Elems1 ans = [1, 2, 3, 4, 5, 6, 7, 8])"
proof -
  have inst: "Append zero_fill 3 (example_sources c) = Some (Inl MissingReturn) \<and>
     (\<exists>ans. Append_body zero_fill 3 (example_sources c) = Some (Inr ([0, 3, 3, 8], ans)) \<and>
          Dim ans = 8 \<and> Elems1 ans = [1, 2, 3, 4, 5, 6, 7, 8])" for c
  proof -
    let ?src = "example_sources c"
    have h: "(0::int) < 3" "nat 3 = length ?src" "sum_list (map Dim ?src) < 2 ^ 31"
      "length ?src < 2 ^ 31"
      by (simp_all add: example_sources_def)
    have u: "[0..<length ?src + 1] = [0, 1, 2, 3]"
      by (simp add: example_sources_def upt_rec)
    have o: "map (offs ?src) [0, 1, 2, 3] = [0, 3, 3, 8]"
      by (simp add: offs_def example_sources_def numeral_eq_Suc)
    have t: "sum_list (map Dim ?src) = 8" by (simp add: example_sources_def)
    have e: "concat (map Elems1 ?src) = [1, 2, 3, 4, 5, 6, 7, 8]"
      by (simp add: example_sources_def Elems1_def Data1_def upt_rec numeral_eq_Suc)
    show ?thesis
      using Append_returns_nothing[OF h, of zero_fill] unfolding u o t e .
  qed
  show ?thesis using inst[of CpuContext] inst[of "CudaContext 0"] by blast
qed

end
